theory Spec2Isabelle
  imports Complex_Main
begin

section \<open>NetworKit GraphTools: the graph storage engine\<close>

text \<open>
  The functions verified here are those of \<^verbatim>\<open>networkit/cpp/graph/GraphTools.cpp\<close>.
  They are written against the class \<^verbatim>\<open>Graph\<close>, whose implementation is not part of
  the source at hand; its state and the primitives that GraphTools calls are modelled
  from the data model and the interface list of the specification (sections 3 and 6).

  Node ids, counts and edge ids are 64-bit unsigned integers in the program. A graph
  keeps one vector entry per node id, so no id or counter of a graph that fits in
  memory comes near \<open>2^64\<close>; they are modelled as \<open>nat\<close>. Edge weights are only stored
  and copied by the functions below, never computed with; they are modelled as \<open>real\<close>.
\<close>

type_synonym node = nat
type_synonym edgeweight = real
type_synonym edgeid = nat

text \<open>One adjacency entry: the neighbour, the weight and the optional edge id.\<close>

type_synonym adjEntry = "node \<times> edgeweight \<times> edgeid option"

text \<open>
  Modelled from the spec: the state of \<^verbatim>\<open>Graph\<close> (section 3). Node existence is a
  vector of flags over \<open>[0, upperNodeIdBound)\<close>, the flags \<open>isWeighted\<close>, \<open>isDirected\<close>
  are fixed at construction, \<open>hasEdgeIds\<close> says whether edges are indexed, the three
  aggregate counters are stored, and every node id has an out-adjacency list and,
  for a directed graph, an in-adjacency list.
\<close>

record Graph =
  exists :: "bool list"
  isWeighted :: bool
  isDirected :: bool
  hasEdgeIds :: bool
  numberOfEdges :: nat
  numberOfSelfLoops :: nat
  upperEdgeIdBound :: nat
  outEdges :: "adjEntry list list"
  inEdges :: "adjEntry list list"

text \<open>
  Failures: the exception thrown by \<open>transpose\<close>, a failed \<^verbatim>\<open>assert\<close>, and an
  index outside a vector (undefined behaviour in the program).
\<close>

datatype error = runtime_error string | assertion_failure | out_of_range

text \<open>
  The primitives of \<^verbatim>\<open>Graph\<close> that GraphTools calls follow. Each is modelled from the
  specification (sections 3 and 6), its implementation being absent from the source.
\<close>

text \<open>Modelled from the spec: \<^verbatim>\<open>defaultEdgeWeight\<close>, the unit weight of an unweighted edge.\<close>

definition defaultEdgeWeight :: edgeweight where
  "defaultEdgeWeight = 1"

text \<open>Modelled from the spec: \<^verbatim>\<open>upperNodeIdBound()\<close>, the size of the node id range.\<close>

definition upperNodeIdBound :: "Graph \<Rightarrow> nat" where
  "upperNodeIdBound G = length (exists G)"

text \<open>Modelled from the spec: \<^verbatim>\<open>numberOfNodes()\<close>, the number of existing nodes.\<close>

definition numberOfNodes :: "Graph \<Rightarrow> nat" where
  "numberOfNodes G = length (filter (\<lambda>b. b) (exists G))"

text \<open>Modelled from the spec: \<^verbatim>\<open>hasNode(v)\<close>, node existence.\<close>

definition hasNode :: "Graph \<Rightarrow> node \<Rightarrow> bool" where
  "hasNode G v = (v < upperNodeIdBound G \<and> exists G ! v)"

text \<open>Modelled from the spec: \<^verbatim>\<open>degreeOut(v)\<close>, the size of the out-adjacency.\<close>

definition degreeOut :: "Graph \<Rightarrow> node \<Rightarrow> nat" where
  "degreeOut G v = length (outEdges G ! v)"

text \<open>
  Modelled from the spec: \<^verbatim>\<open>degreeIn(v)\<close>, the size of the in-adjacency; an undirected
  graph has a single adjacency list per node, which serves both.
\<close>

definition degreeIn :: "Graph \<Rightarrow> node \<Rightarrow> nat" where
  "degreeIn G v = (if isDirected G then length (inEdges G ! v) else length (outEdges G ! v))"

text \<open>
  Modelled from the spec: \<^verbatim>\<open>hasEdge(u, v)\<close>, edge existence: \<open>v\<close> is among the
  out-neighbours of \<open>u\<close>.
\<close>

definition hasEdge :: "Graph \<Rightarrow> node \<Rightarrow> node \<Rightarrow> bool" where
  "hasEdge G u v =
     (u < upperNodeIdBound G \<and> v < upperNodeIdBound G \<and> v \<in> fst ` set (outEdges G ! u))"

text \<open>
  Modelled from the spec: \<^verbatim>\<open>forNodes\<close>, ordered iteration over the existing node ids
  (ascending). Where the callback removes the visited node, the loop is written out
  in the function that calls it.
\<close>

definition forNodes :: "Graph \<Rightarrow> node list" where
  "forNodes G = filter (hasNode G) [0..<upperNodeIdBound G]"

text \<open>Modelled from the spec: \<^verbatim>\<open>forEdgesOf(u)\<close>, iteration over the out-adjacency of \<open>u\<close>.\<close>

definition forEdgesOf :: "Graph \<Rightarrow> node \<Rightarrow> adjEntry list" where
  "forEdgesOf G u = outEdges G ! u"

text \<open>Modelled from the spec: \<^verbatim>\<open>forInEdgesOf(u)\<close>, iteration over the in-adjacency of \<open>u\<close>.\<close>

definition forInEdgesOf :: "Graph \<Rightarrow> node \<Rightarrow> adjEntry list" where
  "forInEdgesOf G u = (if isDirected G then inEdges G ! u else outEdges G ! u)"

text \<open>
  Modelled from the spec: \<^verbatim>\<open>forNeighborsOf(u)\<close>, iteration over the neighbours in the
  adjacency of \<open>u\<close>; in an undirected graph an edge is in the adjacency of both its
  endpoints.
\<close>

definition forNeighborsOf :: "Graph \<Rightarrow> node \<Rightarrow> node list" where
  "forNeighborsOf G u = map fst (outEdges G ! u)"

text \<open>Modelled from the spec: \<^verbatim>\<open>neighborRange(u)\<close>, the out-neighbours of \<open>u\<close>.\<close>

definition neighborRange :: "Graph \<Rightarrow> node \<Rightarrow> node list" where
  "neighborRange G u = map fst (outEdges G ! u)"

text \<open>Modelled from the spec: \<^verbatim>\<open>inNeighborRange(u)\<close>, the in-neighbours of \<open>u\<close>.\<close>

definition inNeighborRange :: "Graph \<Rightarrow> node \<Rightarrow> node list" where
  "inNeighborRange G u = map fst (forInEdgesOf G u)"

text \<open>
  Modelled from the spec: \<^verbatim>\<open>forEdges\<close>, ordered iteration over the edges: node by node
  in ascending order, the adjacency of each node in order, every edge once (an
  undirected edge at its larger endpoint). \<open>edgesAt\<close> is the part of one node.
\<close>

definition edgesAt :: "Graph \<Rightarrow> node \<Rightarrow> (node \<times> node \<times> edgeweight \<times> edgeid option) list" where
  "edgesAt G u =
     map (\<lambda>(v, w, i). (u, v, w, i))
       (filter (\<lambda>(v, w, i). isDirected G \<or> v \<le> u) (outEdges G ! u))"

definition forEdges :: "Graph \<Rightarrow> (node \<times> node \<times> edgeweight \<times> edgeid option) list" where
  "forEdges G = concat (map (edgesAt G) [0..<upperNodeIdBound G])"

text \<open>
  Modelled from the spec: the constructor \<^verbatim>\<open>Graph(n, weighted, directed)\<close>: \<open>n\<close> existing
  nodes, no edge, no edge ids.
\<close>

definition newGraph :: "nat \<Rightarrow> bool \<Rightarrow> bool \<Rightarrow> Graph" where
  "newGraph n weighted directed =
     \<lparr> exists = replicate n True, isWeighted = weighted, isDirected = directed,
       hasEdgeIds = False, numberOfEdges = 0, numberOfSelfLoops = 0,
       upperEdgeIdBound = 0, outEdges = replicate n [],
       inEdges = (if directed then replicate n [] else []) \<rparr>"

text \<open>Modelled from the spec: \<^verbatim>\<open>addNode()\<close>, a new existing node with the next id.\<close>

definition addNode :: "Graph \<Rightarrow> Graph" where
  "addNode G =
     G\<lparr> exists := exists G @ [True], outEdges := outEdges G @ [[]],
        inEdges := (if isDirected G then inEdges G @ [[]] else inEdges G) \<rparr>"

text \<open>
  Modelled from the spec: \<^verbatim>\<open>removeNode(u)\<close> marks a hole. GraphTools removes only nodes
  that have no incident edge.
\<close>

definition removeNode :: "Graph \<Rightarrow> node \<Rightarrow> Graph" where
  "removeNode G u = G\<lparr> exists := (exists G)[u := False] \<rparr>"

text \<open>Modelled from the spec: \<^verbatim>\<open>restoreNode(u)\<close> un-marks a hole.\<close>

definition restoreNode :: "Graph \<Rightarrow> node \<Rightarrow> Graph" where
  "restoreNode G u = G\<lparr> exists := (exists G)[u := True] \<rparr>"

text \<open>
  Appending to the adjacency list of one node, and the entry that a graph stores: an
  unweighted graph stores the default weight, a graph without edge ids no id.
\<close>

definition push :: "'a list list \<Rightarrow> nat \<Rightarrow> 'a \<Rightarrow> 'a list list" where
  "push xss u x = xss[u := xss ! u @ [x]]"

definition entry :: "Graph \<Rightarrow> node \<Rightarrow> edgeweight \<Rightarrow> edgeid option \<Rightarrow> adjEntry" where
  "entry G v ew i =
     (v, if isWeighted G then ew else defaultEdgeWeight, if hasEdgeIds G then i else None)"

text \<open>
  Modelled from the spec: \<^verbatim>\<open>addEdge(u, v, ew)\<close> appends the edge to the adjacency of
  its endpoints (once for a self-loop, which counts as one edge), gives it the next
  edge id when edges are indexed, and updates the counters. It does not look for an
  equal edge: the specification of \<open>merge\<close> guards it with \<open>hasEdge\<close> for that reason.
\<close>

definition addEdge :: "Graph \<Rightarrow> node \<Rightarrow> node \<Rightarrow> edgeweight \<Rightarrow> Graph" where
  "addEdge G u v ew =
     (let i = Some (upperEdgeIdBound G);
          out1 = push (outEdges G) u (entry G v ew i)
      in G\<lparr> numberOfEdges := numberOfEdges G + 1,
            numberOfSelfLoops := numberOfSelfLoops G + (if u = v then 1 else 0),
            upperEdgeIdBound := upperEdgeIdBound G + (if hasEdgeIds G then 1 else 0),
            outEdges := (if isDirected G \<or> u = v then out1 else push out1 v (entry G u ew i)),
            inEdges := (if isDirected G then push (inEdges G) v (entry G u ew i)
                        else inEdges G) \<rparr>)"

text \<open>
  Modelled from the spec: \<^verbatim>\<open>addPartialOutEdge\<close> and \<^verbatim>\<open>addPartialInEdge\<close>, the one-sided
  insertions: one adjacency list of one node, no counter.
\<close>

definition addPartialOutEdge ::
  "Graph \<Rightarrow> node \<Rightarrow> node \<Rightarrow> edgeweight \<Rightarrow> edgeid option \<Rightarrow> Graph" where
  "addPartialOutEdge G u v ew i = G\<lparr> outEdges := push (outEdges G) u (entry G v ew i) \<rparr>"

definition addPartialInEdge ::
  "Graph \<Rightarrow> node \<Rightarrow> node \<Rightarrow> edgeweight \<Rightarrow> edgeid option \<Rightarrow> Graph" where
  "addPartialInEdge G u v ew i = G\<lparr> inEdges := push (inEdges G) u (entry G v ew i) \<rparr>"

text \<open>
  Modelled from the spec: \<^verbatim>\<open>preallocateDirected\<close> pre-sizes the capacity of the
  adjacency lists of a node, which is no part of the state above.
\<close>

definition preallocateDirected :: "Graph \<Rightarrow> node \<Rightarrow> nat \<Rightarrow> nat \<Rightarrow> Graph" where
  "preallocateDirected G u outSize inSize = G"

text \<open>
  Modelled from the spec: \<^verbatim>\<open>indexEdges()\<close> enables edge indexing. GraphTools calls it
  on a graph that has no edge yet, so that there is no existing edge to number.
\<close>

definition indexEdges :: "Graph \<Rightarrow> Graph" where
  "indexEdges G = (if hasEdgeIds G then G else G\<lparr> hasEdgeIds := True, upperEdgeIdBound := 0 \<rparr>)"

text \<open>
  Modelled from the spec: \<^verbatim>\<open>setEdgeCount\<close>, \<^verbatim>\<open>setNumberOfSelfLoops\<close> and
  \<^verbatim>\<open>setUpperEdgeIdBound\<close> set one aggregate counter each.
\<close>

definition setEdgeCount :: "Graph \<Rightarrow> nat \<Rightarrow> Graph" where
  "setEdgeCount G edges = G\<lparr> numberOfEdges := edges \<rparr>"

definition setNumberOfSelfLoops :: "Graph \<Rightarrow> nat \<Rightarrow> Graph" where
  "setNumberOfSelfLoops G loops = G\<lparr> numberOfSelfLoops := loops \<rparr>"

definition setUpperEdgeIdBound :: "Graph \<Rightarrow> nat \<Rightarrow> Graph" where
  "setUpperEdgeIdBound G newBound = G\<lparr> upperEdgeIdBound := newBound \<rparr>"

text \<open>
  Modelled from the spec: \<^verbatim>\<open>checkConsistency()\<close>, the check of full structural
  consistency that \<open>transpose\<close> asserts on its result (section 4.3, step 4): there is
  one out-adjacency list per node id and, for a directed graph, one in-adjacency list;
  no node is twice among the neighbours of another (no multi-edge); and the edge
  counter obeys the invariant of the data model (section 3): it is the sum of the
  out-adjacency sizes, and of the in-adjacency sizes, of a directed graph, and half the
  sum of the adjacency sizes of an undirected graph, a self-loop counted once.
\<close>

definition checkConsistency :: "Graph \<Rightarrow> bool" where
  "checkConsistency G =
     (length (outEdges G) = upperNodeIdBound G
      \<and> length (inEdges G) = (if isDirected G then upperNodeIdBound G else 0)
      \<and> list_all (\<lambda>xs. distinct (map fst xs)) (outEdges G)
      \<and> (if isDirected G
         then numberOfEdges G = sum_list (map length (outEdges G))
              \<and> numberOfEdges G = sum_list (map length (inEdges G))
         else 2 * numberOfEdges G
              = sum_list (map length (outEdges G)) + numberOfSelfLoops G))"

text \<open>
  The class invariant of the storage engine, as far as GraphTools relies on it: one
  adjacency list per node id, none at a hole, every adjacency entry names an existing
  node, and the entries carry a weight or an edge id only if the graph does.
\<close>

definition entryOk :: "Graph \<Rightarrow> adjEntry \<Rightarrow> bool" where
  "entryOk G e =
     (case e of (v, w, i) \<Rightarrow>
        hasNode G v \<and> (isWeighted G \<or> w = defaultEdgeWeight) \<and> (hasEdgeIds G \<or> i = None))"

definition adjOk :: "Graph \<Rightarrow> adjEntry list list \<Rightarrow> bool" where
  "adjOk G xss =
     (length xss = upperNodeIdBound G \<and>
      list_all (\<lambda>u. (exists G ! u \<or> xss ! u = []) \<and> list_all (entryOk G) (xss ! u))
        [0..<upperNodeIdBound G])"

definition consistent :: "Graph \<Rightarrow> bool" where
  "consistent G =
     (adjOk G (outEdges G) \<and> (if isDirected G then adjOk G (inEdges G) else inEdges G = []))"

text \<open>
  A graph without duplicate edges: the neighbours in every adjacency list are distinct
  and in range, and the adjacency of an undirected graph is symmetric.
\<close>

definition simpleGraph :: "Graph \<Rightarrow> bool" where
  "simpleGraph G =
     list_all (\<lambda>u. distinct (map fst (outEdges G ! u))
                  \<and> list_all (\<lambda>v. v < upperNodeIdBound G
                                  \<and> (isDirected G \<or> u \<in> fst ` set (outEdges G ! v)))
                      (map fst (outEdges G ! u)))
       [0..<upperNodeIdBound G]"

text \<open>
  Every edge is stored at both its ends: \<open>u\<close> is among the in-neighbours of \<open>v\<close> as
  often as \<open>v\<close> is among the out-neighbours of \<open>u\<close>.
\<close>

definition mirrored :: "Graph \<Rightarrow> bool" where
  "mirrored G =
     list_all (\<lambda>u. list_all (\<lambda>v. count_list (neighborRange G u) v
                                    = count_list (inNeighborRange G v) u)
                      [0..<upperNodeIdBound G])
       [0..<upperNodeIdBound G]"

section \<open>GraphTools\<close>

subsection \<open>Degree Aggregator\<close>

text \<open>
  \<open>computeMaxDegree\<close>: the loop over the id range \<open>[0, upperNodeIdBound)\<close> of the
  default build, a max-reduction starting from 0.
\<close>

definition computeMaxDegree :: "Graph \<Rightarrow> bool \<Rightarrow> nat" where
  "computeMaxDegree G inDegree =
     fold (\<lambda>u result. max result (if inDegree then degreeIn G u else degreeOut G u))
       [0..<upperNodeIdBound G] 0"

text \<open>
  The build with \<^verbatim>\<open>NETWORKIT_OMP2\<close> runs the same reduction over \<open>forNodes\<close>, that is
  over the existing nodes only.
\<close>

definition computeMaxDegreeOMP2 :: "Graph \<Rightarrow> bool \<Rightarrow> nat" where
  "computeMaxDegreeOMP2 G inDegree =
     fold (\<lambda>u result. max result (if inDegree then degreeIn G u else degreeOut G u))
       (forNodes G) 0"

definition maxDegree :: "Graph \<Rightarrow> nat" where
  "maxDegree G = computeMaxDegree G False"

definition maxInDegree :: "Graph \<Rightarrow> nat" where
  "maxInDegree G = computeMaxDegree G True"

subsection \<open>View Converter: transpose\<close>

text \<open>
  \<open>transpose\<close> throws on an undirected graph. Otherwise the loop body for node id
  \<open>u\<close> writes the adjacency of \<open>u\<close> only: the in-edges of \<open>u\<close> become partial out-edges
  and the out-edges partial in-edges; a hole of the input is removed from the result.
  The iterations of the parallel loop are independent of each other and are run here
  in ascending order. The counters are set after the loop, and the result is returned
  if it passes the assertion \<^verbatim>\<open>assert(GTranspose.checkConsistency())\<close>.
\<close>

definition transposeNode :: "Graph \<Rightarrow> node \<Rightarrow> Graph \<Rightarrow> Graph" where
  "transposeNode G u GTranspose =
     (if hasNode G u then
        (let T1 = preallocateDirected GTranspose u (degreeIn G u) (degreeOut G u);
             T2 = fold (\<lambda>(v, w, i) T. addPartialOutEdge T u v w i) (forInEdgesOf G u) T1
         in fold (\<lambda>(v, w, i) T. addPartialInEdge T u v w i) (forEdgesOf G u) T2)
      else removeNode GTranspose u)"

definition transpose :: "Graph \<Rightarrow> error + Graph" where
  "transpose G =
     (if \<not> isDirected G then
        Inl (runtime_error
          ''The transpose of an undirected graph is identical to the original graph.'')
      else
        (let T0 = newGraph (upperNodeIdBound G) (isWeighted G) True;
             T1 = (if hasEdgeIds G then indexEdges T0 else T0);
             T2 = fold (transposeNode G) [0..<upperNodeIdBound G] T1;
             T3 = setEdgeCount T2 (numberOfEdges G);
             T4 = setNumberOfSelfLoops T3 (numberOfSelfLoops G);
             T5 = setUpperEdgeIdBound T4 (upperEdgeIdBound G)
         in if checkConsistency T5 then Inr T5 else Inl assertion_failure))"

text \<open>
  The result of \<open>transpose\<close> as the specification describes it: the same graph with
  the out- and in-adjacency exchanged.
\<close>

definition transposed :: "Graph \<Rightarrow> Graph" where
  "transposed G = G\<lparr> outEdges := inEdges G, inEdges := outEdges G \<rparr>"

subsection \<open>Subset Extractor\<close>

text \<open>
  The set \<open>neighbors\<close> computed by the first lambda of \<open>subgraphFromNodes\<close>, the
  relevance score \<open>isRelevantNode\<close>, and the function itself: the result starts
  with every id of \<open>[0, upperNodeIdBound)\<close> existing, the nodes of relevance 0 are
  removed, and the edges of the input whose scores add up to more than 2 are added.
\<close>

definition subgraphNeighbors :: "Graph \<Rightarrow> node set \<Rightarrow> bool \<Rightarrow> bool \<Rightarrow> node set" where
  "subgraphNeighbors G nodes includeOutNeighbors includeInNeighbors =
     (if \<not> includeOutNeighbors \<and> \<not> includeInNeighbors then {}
      else (\<Union>u\<in>nodes.
              (if includeOutNeighbors then set (neighborRange G u) else {}) \<union>
              (if includeInNeighbors then set (inNeighborRange G u) else {})))"

definition isRelevantNode :: "node set \<Rightarrow> node set \<Rightarrow> node \<Rightarrow> nat" where
  "isRelevantNode nodes neighbors u =
     (if u \<in> nodes then 2
      else if neighbors \<noteq> {} \<and> u \<in> neighbors then 1
      else 0)"

definition subgraphFromNodes :: "Graph \<Rightarrow> node set \<Rightarrow> bool \<Rightarrow> bool \<Rightarrow> Graph" where
  "subgraphFromNodes G nodes includeOutNeighbors includeInNeighbors =
     (let neighbors = subgraphNeighbors G nodes includeOutNeighbors includeInNeighbors;
          S0 = newGraph (upperNodeIdBound G) (isWeighted G) (isDirected G);
          S1 = fold (\<lambda>u S. if hasNode S u
                            then (if isRelevantNode nodes neighbors u = 0 then removeNode S u else S)
                            else S)
                 [0..<upperNodeIdBound S0] S0
      in fold (\<lambda>(u, v, w, i) S.
                 if isRelevantNode nodes neighbors u + isRelevantNode nodes neighbors v > 2
                 then addEdge S u v w else S)
           (forEdges G) S1)"

subsection \<open>Graph Combiner: merge\<close>

text \<open>
  \<open>mergeEdge\<close> is the callback of the loop over the edges of the source: the edge is
  added unless the target has an edge between its endpoints. \<open>merge\<close> first grows the
  id range of the target up to that of the source and removes the new ids that are
  holes of the source, then restores the holes of the target that exist in the source,
  then adds the edges.
\<close>

definition mergeEdge :: "Graph \<Rightarrow> node \<times> node \<times> edgeweight \<times> edgeid option \<Rightarrow> Graph" where
  "mergeEdge G e = (case e of (u, v, w, i) \<Rightarrow> if \<not> hasEdge G u v then addEdge G u v w else G)"

definition merge :: "Graph \<Rightarrow> Graph \<Rightarrow> Graph" where
  "merge G G1 =
     (let Ga = (if upperNodeIdBound G1 > upperNodeIdBound G then
                  (let prevBound = upperNodeIdBound G;
                       A = fold (\<lambda>i H. addNode H) [prevBound..<upperNodeIdBound G1] G
                   in fold (\<lambda>i H. if \<not> hasNode G1 i then removeNode H i else H)
                        [prevBound..<upperNodeIdBound G1] A)
                else G);
          Gb = fold (\<lambda>i H. if \<not> hasNode H i \<and> hasNode G1 i then restoreNode H i else H)
                 [0..<upperNodeIdBound Ga] Ga
      in fold (\<lambda>e H. mergeEdge H e) (forEdges G1) Gb)"

subsection \<open>Id Compactor\<close>

text \<open>
  A \<^verbatim>\<open>std::unordered_map<node,node>\<close> is modelled as an association list with distinct
  keys; \<open>insert\<close> leaves an existing key alone. The order of the list stands for the
  unspecified iteration order of the container.
\<close>

type_synonym nodeIdMap = "(node \<times> node) list"

definition mapInsert :: "nodeIdMap \<Rightarrow> node \<times> node \<Rightarrow> nodeIdMap" where
  "mapInsert m kv = (if fst kv \<in> fst ` set m then m else m @ [kv])"

definition getContinuousNodeIds :: "Graph \<Rightarrow> nodeIdMap" where
  "getContinuousNodeIds G =
     fst (fold (\<lambda>v (nodeIdMap, continuousId).
                  (mapInsert nodeIdMap (v, continuousId), continuousId + 1))
            (forNodes G) ([], 0))"

text \<open>
  Modelled from the spec: \<open>getRemappedGraph\<close>, the generic id-remapping routine that
  \<open>getCompactedGraph\<close> delegates to, is not part of the source at hand. It builds a
  graph of \<open>numNodes\<close> nodes with the flags of the input and adds every edge of the
  input under the mapped endpoints, with its weight.
\<close>

definition getRemappedGraph :: "Graph \<Rightarrow> nat \<Rightarrow> (node \<Rightarrow> node) \<Rightarrow> Graph" where
  "getRemappedGraph G numNodes oldIdToNew =
     fold (\<lambda>(u, v, w, i) H. addEdge H (oldIdToNew u) (oldIdToNew v) w) (forEdges G)
       (newGraph numNodes (isWeighted G) (isDirected G))"

text \<open>
  \<open>getCompactedGraph\<close>: the id mapper asserts that the id it is called with is a key
  of the map. Modelled from the spec: the ids that the remapping routine hands to the
  mapper are every existing node id of the graph and the endpoints of every edge
  (section 4.5: every original id must be present in the map).
\<close>

definition getCompactedGraph :: "Graph \<Rightarrow> nodeIdMap \<Rightarrow> error + Graph" where
  "getCompactedGraph G nodeIdMap =
     (if list_all (\<lambda>u. map_of nodeIdMap u \<noteq> None) (forNodes G)
         \<and> list_all (\<lambda>(u, v, w, i). map_of nodeIdMap u \<noteq> None \<and> map_of nodeIdMap v \<noteq> None)
             (forEdges G)
      then Inr (getRemappedGraph G (length nodeIdMap) (\<lambda>u. the (map_of nodeIdMap u)))
      else Inl assertion_failure)"

definition invertContinuousNodeIds :: "nodeIdMap \<Rightarrow> Graph \<Rightarrow> error + node list" where
  "invertContinuousNodeIds nodeIdMap G =
     (if length nodeIdMap \<noteq> numberOfNodes G then Inl assertion_failure
      else fold (\<lambda>(first, second) r.
                   case r of
                     Inl e \<Rightarrow> Inl e
                   | Inr invertedIdMap \<Rightarrow>
                       if second < length invertedIdMap
                       then Inr (invertedIdMap[second := first])
                       else Inl out_of_range)
             nodeIdMap
             (Inr ((replicate (numberOfNodes G + 1) 0)[numberOfNodes G := upperNodeIdBound G])))"

text \<open>
  \<open>restoreGraph\<close>: the body of the loop over the nodes of \<open>Goriginal\<close>, with the
  counter \<open>current\<close> as part of the state, and the function. Reading the inverted map
  or the adjacency of the compacted graph outside their range is an error.
\<close>

definition restoreNodeStep ::
  "node list \<Rightarrow> Graph \<Rightarrow> node \<Rightarrow> error + Graph \<times> nat \<Rightarrow> error + Graph \<times> nat" where
  "restoreNodeStep invertedIdMap G u r =
     (case r of
        Inl e \<Rightarrow> Inl e
      | Inr (Goriginal, current) \<Rightarrow>
          if \<not> hasNode Goriginal u then Inr (Goriginal, current)
          else if \<not> current < length invertedIdMap then Inl out_of_range
          else if invertedIdMap ! current = u then
            (if current < upperNodeIdBound G
                \<and> list_all (\<lambda>v. v < length invertedIdMap) (forNeighborsOf G current)
             then Inr (fold (\<lambda>v H. addEdge H u (invertedIdMap ! v) defaultEdgeWeight)
                         (forNeighborsOf G current) Goriginal,
                       current + 1)
             else Inl out_of_range)
          else Inr (removeNode Goriginal u, current))"

definition restoreGraph :: "node list \<Rightarrow> Graph \<Rightarrow> error + Graph" where
  "restoreGraph invertedIdMap G =
     (if invertedIdMap = [] then Inl out_of_range
      else map_sum id fst
             (fold (restoreNodeStep invertedIdMap G) [0..<last invertedIdMap]
                (Inr (newGraph (last invertedIdMap) (isWeighted G) (isDirected G), 0))))"

text \<open>
  The round trip of the specification: compact with the dense id map, invert the map,
  restore.
\<close>

definition roundTrip :: "Graph \<Rightarrow> error + Graph" where
  "roundTrip G =
     (let nodeIdMap = getContinuousNodeIds G in
      case getCompactedGraph G nodeIdMap of
        Inl e \<Rightarrow> Inl e
      | Inr Gcompact \<Rightarrow>
          (case invertContinuousNodeIds nodeIdMap G of
             Inl e \<Rightarrow> Inl e
           | Inr invertedIdMap \<Rightarrow> restoreGraph invertedIdMap Gcompact))"

section \<open>Auxiliary definitions for the proofs\<close>

text \<open>
  \<open>canon\<close> is what a graph stores of an entry handed to a partial insertion;
  \<open>transposePartial\<close> is the state of the loop of \<open>transpose\<close> after the node ids
  below \<open>k\<close>.
\<close>

definition canon :: "Graph \<Rightarrow> adjEntry \<Rightarrow> adjEntry" where
  "canon T e = (case e of (v, w, i) \<Rightarrow> entry T v w i)"

definition transposePartial :: "Graph \<Rightarrow> Graph \<Rightarrow> nat \<Rightarrow> Graph" where
  "transposePartial G T k =
     T\<lparr> exists := map (\<lambda>i. i < k \<longrightarrow> exists G ! i) [0..<upperNodeIdBound G],
        outEdges := map (\<lambda>i. if i < k \<and> exists G ! i then map (canon T) (forInEdgesOf G i) else [])
                      [0..<upperNodeIdBound G],
        inEdges := map (\<lambda>i. if i < k \<and> exists G ! i then map (canon T) (forEdgesOf G i) else [])
                      [0..<upperNodeIdBound G] \<rparr>"

text \<open>
  \<open>relevantNodes\<close> is the state of the removal loop of \<open>subgraphFromNodes\<close> after the
  node ids below \<open>k\<close>.
\<close>

definition relevantNodes :: "Graph \<Rightarrow> (node \<Rightarrow> nat) \<Rightarrow> nat \<Rightarrow> Graph" where
  "relevantNodes S0 r k =
     S0\<lparr> exists := map (\<lambda>u. u < k \<longrightarrow> r u \<noteq> 0) [0..<upperNodeIdBound S0] \<rparr>"

text \<open>
  \<open>setFlags\<close> is a loop that rewrites the existence flag of one node id per
  iteration; \<open>mergeNodes\<close> is the target of \<open>merge\<close> after its loops over the node
  ids, before the edges are added.
\<close>

definition setFlags :: "(nat \<Rightarrow> bool \<Rightarrow> bool) \<Rightarrow> nat list \<Rightarrow> bool list \<Rightarrow> bool list" where
  "setFlags g is xs = fold (\<lambda>i ys. ys[i := g i (ys ! i)]) is xs"

definition mergeNodes :: "Graph \<Rightarrow> Graph \<Rightarrow> Graph" where
  "mergeNodes G G1 =
     G\<lparr> exists := map (\<lambda>j. (j < upperNodeIdBound G \<and> exists G ! j) \<or> hasNode G1 j)
                    [0..<max (upperNodeIdBound G) (upperNodeIdBound G1)],
        outEdges := outEdges G @ replicate (upperNodeIdBound G1 - upperNodeIdBound G) [],
        inEdges := (if isDirected G
                    then inEdges G @ replicate (upperNodeIdBound G1 - upperNodeIdBound G) []
                    else inEdges G) \<rparr>"

text \<open>
  \<open>restoredUpTo\<close> is the invariant of the loop of \<open>restoreGraph\<close> on the round trip of a
  directed graph, after the node ids below \<open>j\<close>.
\<close>

definition restoredUpTo :: "Graph \<Rightarrow> nat \<Rightarrow> Graph \<Rightarrow> bool" where
  "restoredUpTo G j Go \<longleftrightarrow>
     exists Go = map (\<lambda>u. u < j \<longrightarrow> exists G ! u) [0..<upperNodeIdBound G]
     \<and> isDirected Go \<and> \<not> hasEdgeIds Go \<and> isWeighted Go = isWeighted G
     \<and> length (outEdges Go) = upperNodeIdBound G
     \<and> (\<forall>a<upperNodeIdBound G.
           outEdges Go ! a
           = (if a < j then map (\<lambda>(v, w, i). (v, defaultEdgeWeight, None)) (outEdges G ! a)
              else []))"

section \<open>Example graphs\<close>

text \<open>
  The scenario of the specification: nodes 0, 1, 3, a hole at 2, the directed edges
  \<open>0 \<rightarrow> 1\<close>, \<open>1 \<rightarrow> 3\<close>, \<open>3 \<rightarrow> 0\<close>.
\<close>

definition scenarioGraph :: Graph where
  "scenarioGraph =
     addEdge (addEdge (addEdge (removeNode (newGraph 4 False True) 2) 0 1 1) 1 3 1) 3 0 1"

text \<open>A directed, weighted graph with edge ids, a hole at 2 and a self-loop at 3.\<close>

definition indexedGraph :: Graph where
  "indexedGraph =
     addEdge (addEdge (addEdge (indexEdges (removeNode (newGraph 4 True True) 2)) 0 1 5) 1 3 2) 3 3 7"

text \<open>An undirected graph of two nodes and the edge between them, and a single node.\<close>

definition pairGraph :: Graph where
  "pairGraph = addEdge (newGraph 2 False False) 0 1 1"

definition singleNode :: Graph where
  "singleNode = newGraph 1 False False"

text \<open>An undirected path \<open>0 - 1 - 2\<close> with an isolated node 3.\<close>

definition pathGraph :: Graph where
  "pathGraph = addEdge (addEdge (newGraph 4 False False) 0 1 1) 1 2 1"

section \<open>Verification\<close>

subsection \<open>The invariant and the adjacency lists\<close>

lemma adjOk_iff:
  "adjOk G xss \<longleftrightarrow>
     length xss = upperNodeIdBound G \<and>
     (\<forall>u<upperNodeIdBound G. (exists G ! u \<or> xss ! u = []) \<and> (\<forall>e\<in>set (xss ! u). entryOk G e))"
  unfolding adjOk_def list_all_iff by (simp add: Ball_def)

lemma adjOk_length: "adjOk G xss \<Longrightarrow> length xss = upperNodeIdBound G"
  by (simp add: adjOk_iff)

lemma adjOk_hole:
  "adjOk G xss \<Longrightarrow> u < upperNodeIdBound G \<Longrightarrow> \<not> exists G ! u \<Longrightarrow> xss ! u = []"
  unfolding adjOk_iff by blast

lemma adjOk_entry:
  "adjOk G xss \<Longrightarrow> u < upperNodeIdBound G \<Longrightarrow> e \<in> set (xss ! u) \<Longrightarrow> entryOk G e"
  unfolding adjOk_iff by blast


subsection \<open>Degree Aggregator\<close>

lemma fold_max_Max:
  "fold (\<lambda>u (r::nat). max r (f u)) xs a = Max (insert a (f ` set xs))"
proof (induction xs arbitrary: a)
  case Nil
  show ?case by simp
next
  case (Cons x xs)
  let ?S = "f ` set xs"
  have fin: "finite ?S" by simp
  have "fold (\<lambda>u r. max r (f u)) (x # xs) a = Max (insert (max a (f x)) ?S)"
    using Cons.IH [of "max a (f x)"] by simp
  also have "\<dots> = Max (insert a (insert (f x) ?S))"
  proof (cases "?S = {}")
    case True
    then show ?thesis by simp
  next
    case False
    have "Max (insert (max a (f x)) ?S) = max (max a (f x)) (Max ?S)"
      using fin False by (rule Max_insert)
    moreover have "Max (insert a (insert (f x) ?S)) = max a (max (f x) (Max ?S))"
      using fin False by simp
    ultimately show ?thesis by (simp only: max.assoc)
  qed
  finally show ?case by simp
qed

lemma degree_image:
  assumes hole: "\<And>u. u < upperNodeIdBound G \<Longrightarrow> \<not> exists G ! u \<Longrightarrow> d u = (0::nat)"
  shows "insert 0 (d ` set [0..<upperNodeIdBound G]) = insert 0 (d ` {u. hasNode G u})"
proof (rule set_eqI)
  fix y
  show "y \<in> insert 0 (d ` set [0..<upperNodeIdBound G]) \<longleftrightarrow> y \<in> insert 0 (d ` {u. hasNode G u})"
  proof
    assume "y \<in> insert 0 (d ` set [0..<upperNodeIdBound G])"
    then consider "y = 0" | u where "u < upperNodeIdBound G" "y = d u"
      by (auto simp: image_iff)
    then show "y \<in> insert 0 (d ` {u. hasNode G u})"
    proof cases
      case 1
      then show ?thesis by simp
    next
      case 2
      show ?thesis
      proof (cases "exists G ! u")
        case True
        with 2 have "hasNode G u" by (simp add: hasNode_def)
        with 2 show ?thesis by blast
      next
        case False
        from hole [OF 2(1) False] 2(2) have "y = 0" by (simp only:)
        then show ?thesis by simp
      qed
    qed
  next
    assume "y \<in> insert 0 (d ` {u. hasNode G u})"
    then consider "y = 0" | u where "hasNode G u" "y = d u"
      by (auto simp: image_iff)
    then show "y \<in> insert 0 (d ` set [0..<upperNodeIdBound G])"
    proof cases
      case 1
      then show ?thesis by simp
    next
      case 2
      then have "u \<in> set [0..<upperNodeIdBound G]" by (simp add: hasNode_def)
      with 2 show ?thesis by blast
    qed
  qed
qed

lemma degreeOut_hole:
  "consistent G \<Longrightarrow> u < upperNodeIdBound G \<Longrightarrow> \<not> exists G ! u \<Longrightarrow> degreeOut G u = 0"
  using adjOk_hole [of G "outEdges G" u] by (simp add: consistent_def degreeOut_def)

lemma degreeIn_hole:
  "consistent G \<Longrightarrow> u < upperNodeIdBound G \<Longrightarrow> \<not> exists G ! u \<Longrightarrow> degreeIn G u = 0"
  using adjOk_hole [of G "outEdges G" u] adjOk_hole [of G "inEdges G" u]
  by (simp add: consistent_def degreeIn_def split: if_splits)

text \<open>
  Claim C7. On a graph that satisfies the invariant of the storage engine, \<open>maxDegree\<close>
  is the maximum out-degree over the existing nodes and \<open>maxInDegree\<close> the maximum
  in-degree (the maximum of the empty set of degrees being 0): the holes, which the
  loop also visits, do not change the result. Both are 0 when every existing node has
  degree 0, in particular on a graph without nodes. The build that iterates over the
  existing nodes only returns the same values.
\<close>

theorem computeMaxDegree_is_max:
  assumes "consistent G"
  shows "maxDegree G = Max (insert 0 (degreeOut G ` {u. hasNode G u}))
       \<and> maxInDegree G = Max (insert 0 (degreeIn G ` {u. hasNode G u}))
       \<and> ((\<forall>u. hasNode G u \<longrightarrow> degreeOut G u = 0) \<longrightarrow> maxDegree G = 0)
       \<and> ((\<forall>u. hasNode G u \<longrightarrow> degreeIn G u = 0) \<longrightarrow> maxInDegree G = 0)
       \<and> computeMaxDegreeOMP2 G False = maxDegree G
       \<and> computeMaxDegreeOMP2 G True = maxInDegree G"
proof -
  have out: "maxDegree G = Max (insert 0 (degreeOut G ` {u. hasNode G u}))"
    unfolding maxDegree_def computeMaxDegree_def
    using degree_image [of G "degreeOut G"] degreeOut_hole [OF assms]
    by (simp add: fold_max_Max)
  have inn: "maxInDegree G = Max (insert 0 (degreeIn G ` {u. hasNode G u}))"
    unfolding maxInDegree_def computeMaxDegree_def
    using degree_image [of G "degreeIn G"] degreeIn_hole [OF assms]
    by (simp add: fold_max_Max)
  have zero: "Max (insert 0 (d ` {u. hasNode G u})) = 0"
    if "\<forall>u. hasNode G u \<longrightarrow> d u = (0::nat)" for d
  proof -
    from that have eq: "insert 0 (d ` {u. hasNode G u}) = {0}" by auto
    show ?thesis unfolding eq by simp
  qed
  have z1: "(\<forall>u. hasNode G u \<longrightarrow> degreeOut G u = 0) \<longrightarrow> maxDegree G = 0"
    using zero [of "degreeOut G"] out by simp
  have z2: "(\<forall>u. hasNode G u \<longrightarrow> degreeIn G u = 0) \<longrightarrow> maxInDegree G = 0"
    using zero [of "degreeIn G"] inn by simp
  have nodes: "set (forNodes G) = {u. hasNode G u}"
    by (auto simp: forNodes_def hasNode_def)
  have o2: "computeMaxDegreeOMP2 G False = maxDegree G"
    unfolding out by (simp add: computeMaxDegreeOMP2_def fold_max_Max nodes)
  have i2: "computeMaxDegreeOMP2 G True = maxInDegree G"
    unfolding inn by (simp add: computeMaxDegreeOMP2_def fold_max_Max nodes)
  show ?thesis
    using out inn z1 z2 o2 i2 by blast
qed


theorem computeMaxDegree_is_max_witness:
  "consistent indexedGraph \<and> maxDegree indexedGraph = 1 \<and> maxInDegree indexedGraph = 2
   \<and> maxDegree indexedGraph = Max (insert 0 (degreeOut indexedGraph ` {u. hasNode indexedGraph u}))
   \<and> consistent (newGraph 3 False False)
   \<and> maxDegree (newGraph 3 False False) = 0"
proof -
  have c1: "consistent indexedGraph" by code_simp
  have v1: "maxDegree indexedGraph = 1" "maxInDegree indexedGraph = 2" by code_simp+
  have c2: "consistent (newGraph 3 False False)" by code_simp
  have e2: "\<forall>u. hasNode (newGraph 3 False False) u \<longrightarrow> degreeOut (newGraph 3 False False) u = 0"
    by (simp add: hasNode_def degreeOut_def newGraph_def upperNodeIdBound_def)
  from computeMaxDegree_is_max [OF c1] computeMaxDegree_is_max [OF c2] c1 v1 c2 e2
  show ?thesis by blast
qed

subsection \<open>Transpose\<close>

lemma push_length [simp]: "length (push xss u x) = length xss"
  by (simp add: push_def)

lemma push_nth: "i < length xss \<Longrightarrow> push xss u x ! i = (if i = u then xss ! i @ [x] else xss ! i)"
  by (simp add: push_def nth_list_update)

lemma fold_push:
  "u < length xss \<Longrightarrow> fold (\<lambda>x yss. push yss u (f x)) es xss = xss[u := xss ! u @ map f es]"
proof (induction es arbitrary: xss)
  case Nil
  then show ?case by simp
next
  case (Cons e es)
  have "fold (\<lambda>x yss. push yss u (f x)) (e # es) xss
        = fold (\<lambda>x yss. push yss u (f x)) es (push xss u (f e))" by simp
  also have "\<dots> = (push xss u (f e))[u := push xss u (f e) ! u @ map f es]"
    using Cons.prems by (intro Cons.IH) simp
  also have "\<dots> = xss[u := xss ! u @ map f (e # es)]"
    using Cons.prems by (simp add: push_def)
  finally show ?case .
qed

lemma entry_flags:
  "isWeighted T' = isWeighted T \<Longrightarrow> hasEdgeIds T' = hasEdgeIds T \<Longrightarrow> entry T' v w i = entry T v w i"
  by (simp add: entry_def)

lemma fold_addPartialOutEdge:
  "fold (\<lambda>(v, w, i) T. addPartialOutEdge T u v w i) es T
   = T\<lparr> outEdges := fold (\<lambda>e yss. push yss u (canon T e)) es (outEdges T) \<rparr>"
proof (induction es arbitrary: T)
  case Nil
  show ?case by simp
next
  case (Cons e es)
  obtain v w i where e: "e = (v, w, i)" by (cases e) auto
  let ?T = "addPartialOutEdge T u v w i"
  have c: "canon ?T = canon T"
    by (rule ext) (simp add: canon_def addPartialOutEdge_def entry_def split: prod.splits)
  show ?case
    unfolding e using Cons.IH [of ?T]
    by (simp add: c) (simp add: addPartialOutEdge_def canon_def)
qed

lemma fold_addPartialInEdge:
  "fold (\<lambda>(v, w, i) T. addPartialInEdge T u v w i) es T
   = T\<lparr> inEdges := fold (\<lambda>e yss. push yss u (canon T e)) es (inEdges T) \<rparr>"
proof (induction es arbitrary: T)
  case Nil
  show ?case by simp
next
  case (Cons e es)
  obtain v w i where e: "e = (v, w, i)" by (cases e) auto
  let ?T = "addPartialInEdge T u v w i"
  have c: "canon ?T = canon T"
    by (rule ext) (simp add: canon_def addPartialInEdge_def entry_def split: prod.splits)
  show ?case
    unfolding e using Cons.IH [of ?T]
    by (simp add: c) (simp add: addPartialInEdge_def canon_def)
qed

lemma transposeNode_existing:
  assumes "hasNode G u" "u < length (outEdges T)" "u < length (inEdges T)"
  shows "transposeNode G u T
         = T\<lparr> outEdges := (outEdges T)[u := outEdges T ! u @ map (canon T) (forInEdgesOf G u)],
               inEdges := (inEdges T)[u := inEdges T ! u @ map (canon T) (forEdgesOf G u)] \<rparr>"
proof -
  let ?T2 = "T\<lparr> outEdges := (outEdges T)[u := outEdges T ! u @ map (canon T) (forInEdgesOf G u)] \<rparr>"
  have c: "canon ?T2 = canon T"
    by (rule ext) (simp add: canon_def entry_def split: prod.splits)
  have "fold (\<lambda>(v, w, i) T. addPartialOutEdge T u v w i) (forInEdgesOf G u) T = ?T2"
    using assms(2) by (simp add: fold_addPartialOutEdge fold_push)
  then show ?thesis
    using assms by (simp add: transposeNode_def preallocateDirected_def Let_def
        fold_addPartialInEdge fold_push c)
qed


lemma canon_transposePartial: "canon (transposePartial G T k) = canon T"
  by (rule ext) (simp add: canon_def entry_def transposePartial_def split: prod.splits)

lemma transposePartial_step:
  assumes "k < upperNodeIdBound G"
  shows "transposeNode G k (transposePartial G T k) = transposePartial G T (Suc k)"
proof (cases "exists G ! k")
  case True
  let ?z = "upperNodeIdBound G"
  let ?P = "transposePartial G T k"
  have h: "hasNode G k" using assms True by (simp add: hasNode_def)
  have lo: "k < length (outEdges ?P)" and li: "k < length (inEdges ?P)"
    using assms by (simp_all add: transposePartial_def)
  have ex: "map (\<lambda>i. i < k \<longrightarrow> exists G ! i) [0..<?z] = map (\<lambda>i. i < Suc k \<longrightarrow> exists G ! i) [0..<?z]"
    using True by (auto simp: less_Suc_eq)
  have upd: "(map (\<lambda>i. if i < k \<and> exists G ! i then f i else []) [0..<?z])
               [k := map (\<lambda>i. if i < k \<and> exists G ! i then f i else []) [0..<?z] ! k @ f k]
             = map (\<lambda>i. if i < Suc k \<and> exists G ! i then f i else []) [0..<?z]" for f :: "nat \<Rightarrow> adjEntry list"
  proof (rule nth_equalityI)
    show "length ((map (\<lambda>i. if i < k \<and> exists G ! i then f i else []) [0..<?z])
               [k := map (\<lambda>i. if i < k \<and> exists G ! i then f i else []) [0..<?z] ! k @ f k])
          = length (map (\<lambda>i. if i < Suc k \<and> exists G ! i then f i else []) [0..<?z])" by simp
  next
    fix i
    assume "i < length ((map (\<lambda>i. if i < k \<and> exists G ! i then f i else []) [0..<?z])
               [k := map (\<lambda>i. if i < k \<and> exists G ! i then f i else []) [0..<?z] ! k @ f k])"
    then have i: "i < ?z" by simp
    show "(map (\<lambda>i. if i < k \<and> exists G ! i then f i else []) [0..<?z])
               [k := map (\<lambda>i. if i < k \<and> exists G ! i then f i else []) [0..<?z] ! k @ f k] ! i
          = map (\<lambda>i. if i < Suc k \<and> exists G ! i then f i else []) [0..<?z] ! i"
      using i assms True by (auto simp: nth_list_update less_Suc_eq)
  qed
  show ?thesis
    unfolding transposeNode_existing [OF h lo li] canon_transposePartial
    using upd [of "\<lambda>i. map (canon T) (forInEdgesOf G i)"]
          upd [of "\<lambda>i. map (canon T) (forEdgesOf G i)"]
    by (simp add: transposePartial_def ex)
next
  case False
  let ?z = "upperNodeIdBound G"
  have h: "\<not> hasNode G k" using False by (simp add: hasNode_def)
  have ex: "(map (\<lambda>i. i < k \<longrightarrow> exists G ! i) [0..<?z])[k := False]
            = map (\<lambda>i. i < Suc k \<longrightarrow> exists G ! i) [0..<?z]"
  proof (rule nth_equalityI)
    show "length ((map (\<lambda>i. i < k \<longrightarrow> exists G ! i) [0..<?z])[k := False])
          = length (map (\<lambda>i. i < Suc k \<longrightarrow> exists G ! i) [0..<?z])" by simp
  next
    fix i
    assume "i < length ((map (\<lambda>i. i < k \<longrightarrow> exists G ! i) [0..<?z])[k := False])"
    then have i: "i < ?z" by simp
    show "(map (\<lambda>i. i < k \<longrightarrow> exists G ! i) [0..<?z])[k := False] ! i
          = map (\<lambda>i. i < Suc k \<longrightarrow> exists G ! i) [0..<?z] ! i"
      using i False by (auto simp: nth_list_update less_Suc_eq)
  qed
  have same: "map (\<lambda>i. if i < k \<and> exists G ! i then f i else []) [0..<?z]
              = map (\<lambda>i. if i < Suc k \<and> exists G ! i then f i else []) [0..<?z]" for f :: "nat \<Rightarrow> adjEntry list"
    using False by (auto simp: less_Suc_eq)
  show ?thesis
    using h same [of "\<lambda>i. map (canon T) (forInEdgesOf G i)"]
          same [of "\<lambda>i. map (canon T) (forEdgesOf G i)"]
    by (simp add: transposeNode_def removeNode_def transposePartial_def ex)
qed

lemma transpose_loop:
  assumes "k \<le> upperNodeIdBound G"
  shows "fold (transposeNode G) [0..<k] (transposePartial G T 0) = transposePartial G T k"
  using assms
proof (induction k)
  case 0
  show ?case by simp
next
  case (Suc k)
  then show ?case by (simp add: transposePartial_step)
qed


lemma transposePartial_0:
  assumes "exists T = replicate (upperNodeIdBound G) True"
      and "outEdges T = replicate (upperNodeIdBound G) []"
      and "inEdges T = replicate (upperNodeIdBound G) []"
  shows "transposePartial G T 0 = T"
  using assms by (simp add: transposePartial_def map_replicate_const)

lemma canon_id: "entryOk G e \<Longrightarrow> canon G e = e"
  by (cases e) (auto simp: entryOk_def canon_def entry_def)

lemma adjOk_canon:
  assumes "adjOk G xss"
  shows "map (\<lambda>i. if i < upperNodeIdBound G \<and> exists G ! i then map (canon G) (xss ! i) else [])
           [0..<upperNodeIdBound G] = xss"
proof (rule nth_equalityI)
  show "length (map (\<lambda>i. if i < upperNodeIdBound G \<and> exists G ! i then map (canon G) (xss ! i) else [])
           [0..<upperNodeIdBound G]) = length xss"
    using assms by (simp add: adjOk_iff)
next
  fix i
  assume "i < length (map (\<lambda>i. if i < upperNodeIdBound G \<and> exists G ! i then map (canon G) (xss ! i) else [])
           [0..<upperNodeIdBound G])"
  then have i: "i < upperNodeIdBound G" by simp
  have "map (canon G) (xss ! i) = xss ! i"
    using adjOk_entry [OF assms i] by (simp add: map_idI canon_id)
  moreover have "\<not> exists G ! i \<Longrightarrow> xss ! i = []"
    using adjOk_hole [OF assms i] by simp
  ultimately show "map (\<lambda>i. if i < upperNodeIdBound G \<and> exists G ! i then map (canon G) (xss ! i) else [])
           [0..<upperNodeIdBound G] ! i = xss ! i"
    using i by simp
qed

lemma transpose_result:
  assumes c: "consistent G" and d: "isDirected G"
  shows "transpose G
         = (if checkConsistency (transposed G) then Inr (transposed G) else Inl assertion_failure)"
proof -
  let ?z = "upperNodeIdBound G"
  let ?T0 = "newGraph ?z (isWeighted G) True"
  let ?T1 = "if hasEdgeIds G then indexEdges ?T0 else ?T0"
  have flags: "isWeighted ?T1 = isWeighted G" "hasEdgeIds ?T1 = hasEdgeIds G" "isDirected ?T1"
    by (simp_all add: newGraph_def indexEdges_def)
  have cn: "canon ?T1 = canon G"
    by (rule ext) (simp add: canon_def entry_def newGraph_def indexEdges_def split: prod.splits)
  have init: "transposePartial G ?T1 0 = ?T1"
    by (rule transposePartial_0) (simp_all add: newGraph_def indexEdges_def)
  have "fold (transposeNode G) [0..<?z] ?T1 = transposePartial G ?T1 ?z"
    using transpose_loop [of ?z G ?T1] by (simp only: init le_refl)
  moreover have ao: "adjOk G (outEdges G)" and ai: "adjOk G (inEdges G)"
    using c d by (simp_all add: consistent_def)
  have ex: "map (\<lambda>i. i < ?z \<longrightarrow> exists G ! i) [0..<?z] = exists G"
    by (rule nth_equalityI) (simp_all add: upperNodeIdBound_def)
  have fi: "(\<lambda>i. if i < ?z \<and> exists G ! i then map (canon G) (forInEdgesOf G i) else [])
            = (\<lambda>i. if i < ?z \<and> exists G ! i then map (canon G) (inEdges G ! i) else [])"
    using d by (simp add: forInEdgesOf_def cong: if_cong)
  have fo: "(\<lambda>i. if i < ?z \<and> exists G ! i then map (canon G) (forEdgesOf G i) else [])
            = (\<lambda>i. if i < ?z \<and> exists G ! i then map (canon G) (outEdges G ! i) else [])"
    by (simp add: forEdgesOf_def cong: if_cong)
  have "transposePartial G ?T1 ?z
        = ?T1\<lparr> exists := exists G, outEdges := inEdges G, inEdges := outEdges G \<rparr>"
    unfolding transposePartial_def cn ex
    by (simp only: fi fo adjOk_canon [OF ao] adjOk_canon [OF ai])
  ultimately have loop: "fold (transposeNode G) [0..<?z] ?T1
        = ?T1\<lparr> exists := exists G, outEdges := inEdges G, inEdges := outEdges G \<rparr>"
    by (simp only:)
  have fin: "setUpperEdgeIdBound
               (setNumberOfSelfLoops
                 (setEdgeCount (fold (transposeNode G) [0..<?z] ?T1) (numberOfEdges G))
                 (numberOfSelfLoops G))
               (upperEdgeIdBound G)
             = transposed G"
    unfolding loop using d
    by (simp add: transposed_def setEdgeCount_def setNumberOfSelfLoops_def
          setUpperEdgeIdBound_def newGraph_def indexEdges_def)
  show ?thesis
    unfolding transpose_def Let_def fin using d by simp
qed

lemma adjOk_cong:
  assumes "exists G' = exists G" "isWeighted G' = isWeighted G" "hasEdgeIds G' = hasEdgeIds G"
  shows "adjOk G' xss = adjOk G xss"
proof -
  have "entryOk G' = entryOk G"
    using assms by (intro ext) (simp add: entryOk_def hasNode_def upperNodeIdBound_def)
  then show ?thesis
    using assms by (simp add: adjOk_def upperNodeIdBound_def)
qed

lemma consistent_transposed:
  assumes "consistent G" and "isDirected G"
  shows "consistent (transposed G)"
proof -
  have "adjOk (transposed G) = adjOk G"
    by (intro ext adjOk_cong) (simp_all add: transposed_def)
  with assms show ?thesis
    by (simp add: consistent_def) (simp add: transposed_def)
qed

lemma transposed_transposed: "transposed (transposed G) = G"
  by (simp add: transposed_def)

lemma distinct_count_list: "distinct xs \<longleftrightarrow> (\<forall>x. count_list xs x \<le> 1)"
proof (induction xs)
  case Nil
  show ?case by simp
next
  case (Cons a xs)
  show ?case
  proof
    assume da: "distinct (a # xs)"
    then have n: "count_list xs a = 0" by (simp add: count_list_0_iff)
    from da Cons.IH have le: "\<forall>x. count_list xs x \<le> 1" by simp
    show "\<forall>x. count_list (a # xs) x \<le> 1"
    proof
      fix x
      from n le [THEN spec, of x] show "count_list (a # xs) x \<le> 1"
        by (cases "x = a") simp_all
    qed
  next
    assume le: "\<forall>x. count_list (a # xs) x \<le> 1"
    from le [THEN spec, of a] have "count_list xs a = 0" by simp
    then have n: "a \<notin> set xs" by (simp add: count_list_0_iff)
    have "count_list xs x \<le> 1" for x
      using le [THEN spec, of x] by (simp split: if_splits)
    with Cons.IH n show "distinct (a # xs)" by simp
  qed
qed

lemma mirrored_iff:
  "mirrored G \<longleftrightarrow>
     (\<forall>u<upperNodeIdBound G. \<forall>v<upperNodeIdBound G.
        count_list (neighborRange G u) v = count_list (inNeighborRange G v) u)"
  unfolding mirrored_def list_all_iff by (simp add: Ball_def)

text \<open>
  The check passes on the exchanged graph if it passes on the graph and the
  in-adjacency mirrors the out-adjacency: a node that were twice among the
  in-neighbours of \<open>v\<close> would have \<open>v\<close> twice among its out-neighbours.
\<close>

lemma checkConsistency_transposed:
  assumes c: "consistent G" and d: "isDirected G"
      and k: "checkConsistency G" and m: "mirrored G"
  shows "checkConsistency (transposed G)"
proof -
  let ?z = "upperNodeIdBound G"
  have ai: "adjOk G (inEdges G)" using c d by (simp add: consistent_def)
  have lo: "length (outEdges G) = ?z" and li: "length (inEdges G) = ?z"
    and dout: "list_all (\<lambda>xs. distinct (map fst xs)) (outEdges G)"
    and so: "numberOfEdges G = sum_list (map length (outEdges G))"
    and si: "numberOfEdges G = sum_list (map length (inEdges G))"
    using k d by (simp_all add: checkConsistency_def)
  have din: "list_all (\<lambda>xs. distinct (map fst xs)) (inEdges G)"
    unfolding list_all_iff
  proof
    fix xs assume "xs \<in> set (inEdges G)"
    then obtain v where v: "v < ?z" and xs: "xs = inEdges G ! v"
      unfolding in_set_conv_nth li by blast
    have "count_list (map fst xs) x \<le> 1" for x
    proof (cases "x < ?z")
      case True
      from m True v have "count_list (neighborRange G x) v = count_list (inNeighborRange G v) x"
        unfolding mirrored_iff by blast
      then have e: "count_list (map fst xs) x = count_list (map fst (outEdges G ! x)) v"
        using d by (simp add: neighborRange_def inNeighborRange_def forInEdgesOf_def xs)
      have "outEdges G ! x \<in> set (outEdges G)" using True lo by simp
      with dout have "distinct (map fst (outEdges G ! x))" unfolding list_all_iff by blast
      then have "count_list (map fst (outEdges G ! x)) v \<le> 1"
        unfolding distinct_count_list by blast
      with e show ?thesis by simp
    next
      case False
      have "x \<notin> set (map fst xs)"
      proof
        assume "x \<in> set (map fst xs)"
        then obtain e where e: "e \<in> set (inEdges G ! v)" and x: "x = fst e"
          unfolding xs by auto
        from adjOk_entry [OF ai v e] have "hasNode G x"
          by (cases e) (simp add: entryOk_def x)
        with False show False by (simp add: hasNode_def)
      qed
      then have "count_list (map fst xs) x = 0" by (simp add: count_list_0_iff)
      then show ?thesis by simp
    qed
    then show "distinct (map fst xs)" unfolding distinct_count_list by blast
  qed
  have z: "upperNodeIdBound (transposed G) = ?z"
    by (simp add: transposed_def upperNodeIdBound_def)
  show ?thesis
    unfolding checkConsistency_def z using lo li din so si d
    by (simp add: transposed_def)
qed

lemma mirrored_transposed:
  assumes d: "isDirected G" and m: "mirrored G"
  shows "mirrored (transposed G)"
proof -
  have z: "upperNodeIdBound (transposed G) = upperNodeIdBound G"
    by (simp add: transposed_def upperNodeIdBound_def)
  have o: "neighborRange (transposed G) u = inNeighborRange G u" for u
    using d by (simp add: neighborRange_def inNeighborRange_def forInEdgesOf_def transposed_def)
  have i: "inNeighborRange (transposed G) u = neighborRange G u" for u
    using d by (simp add: neighborRange_def inNeighborRange_def forInEdgesOf_def transposed_def)
  from m show ?thesis
    unfolding mirrored_iff z o i by simp
qed

text \<open>
  The assertion of \<open>transpose\<close> is not idle: a graph whose edge counter contradicts
  its adjacency lists, and a graph with a doubled edge, are stopped by it.
\<close>

lemma transpose_assertion_fails:
  "transpose (setEdgeCount scenarioGraph 99) = Inl assertion_failure
   \<and> transpose (addEdge scenarioGraph 0 1 1) = Inl assertion_failure"
  by code_simp

text \<open>
  Claim C2. Let a directed graph, with or without edge ids, satisfy the invariant of
  the storage engine, pass the consistency check, and have its in-adjacency mirror
  its out-adjacency. Then \<open>transpose\<close> passes its assertion and returns the graph with
  the out- and in-adjacency exchanged, and the transpose of that graph is the input
  graph itself: the same node existence, the same adjacency entries (neighbour,
  weight, edge id) in the same order, the same flags and the same three counters.
\<close>

theorem transpose_involution:
  assumes "consistent G" and "checkConsistency G" and "mirrored G" and "isDirected G"
  shows "transpose G = Inr (transposed G) \<and> transpose (transposed G) = Inr G"
proof -
  have t: "isDirected (transposed G)" using assms(4) by (simp add: transposed_def)
  have c: "consistent (transposed G)" using assms(1,4) by (rule consistent_transposed)
  have k: "checkConsistency (transposed G)" using assms(1,4,2,3) by (rule checkConsistency_transposed)
  have 1: "transpose G = Inr (transposed G)"
    using transpose_result [OF assms(1,4)] k by simp
  have 2: "transpose (transposed G) = Inr G"
    using transpose_result [OF c t] assms(2) by (simp add: transposed_transposed)
  from 1 2 show ?thesis ..
qed

theorem transpose_involution_witness:
  "consistent indexedGraph \<and> checkConsistency indexedGraph \<and> mirrored indexedGraph
   \<and> isDirected indexedGraph \<and> hasEdgeIds indexedGraph
   \<and> transpose indexedGraph = Inr (transposed indexedGraph)
   \<and> transpose (transposed indexedGraph) = Inr indexedGraph
   \<and> forEdges indexedGraph = [(0, 1, 5, Some 0), (1, 3, 2, Some 1), (3, 3, 7, Some 2)]
   \<and> forEdges (transposed indexedGraph) = [(1, 0, 5, Some 0), (3, 1, 2, Some 1), (3, 3, 7, Some 2)]"
proof -
  have c: "consistent indexedGraph" by code_simp
  have k: "checkConsistency indexedGraph" by code_simp
  have m: "mirrored indexedGraph" by code_simp
  have d: "isDirected indexedGraph" by code_simp
  have i: "hasEdgeIds indexedGraph" by code_simp
  have e0: "forEdges indexedGraph
           = [(0, 1, 5, Some 0), (1, 3, 2, Some 1), (3, 3, 7, Some 2)]" by code_simp
  have e: "forEdges (transposed indexedGraph)
           = [(1, 0, 5, Some 0), (3, 1, 2, Some 1), (3, 3, 7, Some 2)]" by code_simp
  from transpose_involution [OF c k m d] c k m d i e0 e show ?thesis by blast
qed

text \<open>
  Claim C3. On an undirected graph, empty or not, \<open>transpose\<close> returns the
  runtime error and no graph; on a directed graph it does not return the runtime
  error, whatever the message: it returns a graph or stops at its assertion.
\<close>

theorem transpose_undirected_fails:
  "(\<not> isDirected G \<longrightarrow>
      transpose G = Inl (runtime_error
        ''The transpose of an undirected graph is identical to the original graph.''))
   \<and> (isDirected G \<longrightarrow>
        (\<forall>msg. transpose G \<noteq> Inl (runtime_error msg))
        \<and> (transpose G = Inl assertion_failure \<or> (\<exists>T. transpose G = Inr T)))"
  by (simp add: transpose_def Let_def)

theorem transpose_undirected_fails_witness:
  "\<not> isDirected (newGraph 0 False False)
   \<and> transpose (newGraph 0 False False) = Inl (runtime_error
        ''The transpose of an undirected graph is identical to the original graph.'')
   \<and> \<not> isDirected pathGraph
   \<and> transpose pathGraph = Inl (runtime_error
        ''The transpose of an undirected graph is identical to the original graph.'')
   \<and> isDirected scenarioGraph
   \<and> transpose scenarioGraph \<noteq> Inl (runtime_error
        ''The transpose of an undirected graph is identical to the original graph.'')
   \<and> transpose scenarioGraph = Inr (transposed scenarioGraph)"
proof -
  have u0: "\<not> isDirected (newGraph 0 False False)" by code_simp
  have u1: "\<not> isDirected pathGraph" by code_simp
  have d: "isDirected scenarioGraph" by code_simp
  have r: "transpose scenarioGraph = Inr (transposed scenarioGraph)" by code_simp
  from transpose_undirected_fails [of "newGraph 0 False False"]
       transpose_undirected_fails [of pathGraph]
       transpose_undirected_fails [of scenarioGraph] u0 u1 d r
  show ?thesis by blast
qed

text \<open>
  Claim C8. Whenever \<open>transpose\<close> returns a graph, that graph has the edge count, the
  self-loop count and the edge-id bound of the input: they are set after the loop
  over the node ids, whatever the loop has built, and the assertion that follows does
  not change the graph.
\<close>

theorem transpose_counters:
  assumes "transpose G = Inr T"
  shows "numberOfEdges T = numberOfEdges G
         \<and> numberOfSelfLoops T = numberOfSelfLoops G
         \<and> upperEdgeIdBound T = upperEdgeIdBound G"
proof -
  let ?T2 = "fold (transposeNode G) [0..<upperNodeIdBound G]
               (if hasEdgeIds G
                then indexEdges (newGraph (upperNodeIdBound G) (isWeighted G) True)
                else newGraph (upperNodeIdBound G) (isWeighted G) True)"
  let ?T5 = "setUpperEdgeIdBound
               (setNumberOfSelfLoops (setEdgeCount ?T2 (numberOfEdges G)) (numberOfSelfLoops G))
               (upperEdgeIdBound G)"
  from assms have "T = ?T5"
    unfolding transpose_def Let_def by (simp split: if_splits)
  then show ?thesis
    by (simp add: setEdgeCount_def setNumberOfSelfLoops_def setUpperEdgeIdBound_def)
qed

theorem transpose_counters_witness:
  "transpose indexedGraph = Inr (transposed indexedGraph)
   \<and> numberOfEdges indexedGraph = 3 \<and> numberOfSelfLoops indexedGraph = 1
   \<and> upperEdgeIdBound indexedGraph = 3
   \<and> numberOfEdges (transposed indexedGraph) = numberOfEdges indexedGraph
   \<and> numberOfSelfLoops (transposed indexedGraph) = numberOfSelfLoops indexedGraph
   \<and> upperEdgeIdBound (transposed indexedGraph) = upperEdgeIdBound indexedGraph"
proof -
  have r: "transpose indexedGraph = Inr (transposed indexedGraph)" by code_simp
  have v: "numberOfEdges indexedGraph = 3" "numberOfSelfLoops indexedGraph = 1"
    "upperEdgeIdBound indexedGraph = 3" by code_simp+
  from transpose_counters [OF r] r v show ?thesis by simp
qed

subsection \<open>Subset Extractor\<close>

lemma addEdge_exists [simp]: "exists (addEdge H u v w) = exists H"
  by (simp add: addEdge_def Let_def)

lemma addEdge_isWeighted [simp]: "isWeighted (addEdge H u v w) = isWeighted H"
  by (simp add: addEdge_def Let_def)

lemma addEdge_isDirected [simp]: "isDirected (addEdge H u v w) = isDirected H"
  by (simp add: addEdge_def Let_def)

lemma addEdge_hasEdgeIds [simp]: "hasEdgeIds (addEdge H u v w) = hasEdgeIds H"
  by (simp add: addEdge_def Let_def)

lemma addEdge_upperNodeIdBound [simp]: "upperNodeIdBound (addEdge H u v w) = upperNodeIdBound H"
  by (simp add: upperNodeIdBound_def)

lemma addEdge_hasNode [simp]: "hasNode (addEdge H u v w) x = hasNode H x"
  by (simp add: hasNode_def)

lemma addEdge_length_out [simp]: "length (outEdges (addEdge H u v w)) = length (outEdges H)"
  by (simp add: addEdge_def Let_def)

lemma addEdge_length_in [simp]: "length (inEdges (addEdge H u v w)) = length (inEdges H)"
  by (simp add: addEdge_def Let_def)

lemma addEdge_out_nth:
  assumes "a < length (outEdges H)"
  shows "outEdges (addEdge H u v w) ! a
         = outEdges H ! a
           @ (if a = u then [entry H v w (Some (upperEdgeIdBound H))] else [])
           @ (if \<not> isDirected H \<and> u \<noteq> v \<and> a = v then [entry H u w (Some (upperEdgeIdBound H))] else [])"
  using assms by (simp add: addEdge_def Let_def push_nth)

lemma addEdge_in_nth:
  assumes "a < length (inEdges H)"
  shows "inEdges (addEdge H u v w) ! a
         = inEdges H ! a
           @ (if isDirected H \<and> a = v then [entry H u w (Some (upperEdgeIdBound H))] else [])"
  using assms by (simp add: addEdge_def Let_def push_nth)

lemma edgesAt_addEdge:
  assumes "a < length (outEdges H)" and "isDirected H \<or> v \<le> u"
  shows "edgesAt (addEdge H u v w) a
         = edgesAt H a
           @ (if a = u then [(u, entry H v w (Some (upperEdgeIdBound H)))] else [])"
  using assms by (auto simp: edgesAt_def addEdge_out_nth entry_def)

lemma edgesAt_fold_addEdge:
  assumes "a < length (outEdges H)"
      and "\<forall>e\<in>set es. isDirected H \<or> fst (snd e) \<le> fst e"
      and "\<not> hasEdgeIds H"
  shows "edgesAt (fold (\<lambda>(u, v, w, i) S. if P u v then addEdge S u v w else S) es H) a
         = edgesAt H a
           @ map (\<lambda>(u, v, w, i). (u, v, if isWeighted H then w else defaultEdgeWeight, None))
               (filter (\<lambda>(u, v, w, i). u = a \<and> P u v) es)"
  using assms
proof (induction es arbitrary: H)
  case Nil
  show ?case by simp
next
  case (Cons e es)
  obtain u v w i where e: "e = (u, v, w, i)" by (cases e) auto
  have rest: "\<forall>e\<in>set es. isDirected H \<or> fst (snd e) \<le> fst e"
    using Cons.prems(2) by auto
  show ?case
  proof (cases "P u v")
    case False
    with Cons.IH [OF Cons.prems(1) rest Cons.prems(3)] show ?thesis by (simp add: e)
  next
    case True
    let ?H = "addEdge H u v w"
    have o: "isDirected H \<or> v \<le> u" using Cons.prems(2) by (auto simp: e)
    have "edgesAt (fold (\<lambda>(u, v, w, i) S. if P u v then addEdge S u v w else S) es ?H) a
          = edgesAt ?H a
            @ map (\<lambda>(u, v, w, i). (u, v, if isWeighted ?H then w else defaultEdgeWeight, None))
                (filter (\<lambda>(u, v, w, i). u = a \<and> P u v) es)"
      using Cons.prems(1,3) rest by (intro Cons.IH) simp_all
    moreover have "edgesAt ?H a
          = edgesAt H a @ (if a = u then [(u, v, if isWeighted H then w else defaultEdgeWeight, None)] else [])"
      using edgesAt_addEdge [OF Cons.prems(1) o, of w] Cons.prems(3) by (simp add: entry_def)
    ultimately show ?thesis using True by (simp add: e)
  qed
qed

lemma fold_addEdge_fields:
  "exists (fold (\<lambda>(u, v, w, i) S. if P u v then addEdge S u v w else S) es H) = exists H
   \<and> isWeighted (fold (\<lambda>(u, v, w, i) S. if P u v then addEdge S u v w else S) es H) = isWeighted H
   \<and> isDirected (fold (\<lambda>(u, v, w, i) S. if P u v then addEdge S u v w else S) es H) = isDirected H
   \<and> hasEdgeIds (fold (\<lambda>(u, v, w, i) S. if P u v then addEdge S u v w else S) es H) = hasEdgeIds H"
  by (induction es arbitrary: H) (simp_all add: split_def)

lemma filter_concat_block:
  assumes "\<And>b e. e \<in> set (f b) \<Longrightarrow> fst e = b"
  shows "filter (\<lambda>e. fst e = a \<and> Q e) (concat (map f [0..<n]))
         = (if a < n then filter Q (f a) else [])"
proof (induction n)
  case 0
  show ?case by simp
next
  case (Suc n)
  have blk: "filter (\<lambda>e. fst e = a \<and> Q e) (f n) = (if a = n then filter Q (f n) else [])"
  proof (cases "a = n")
    case True
    have "filter (\<lambda>e. fst e = a \<and> Q e) (f n) = filter Q (f n)"
      using assms [of _ n] True by (intro filter_cong) auto
    with True show ?thesis by simp
  next
    case False
    have "filter (\<lambda>e. fst e = a \<and> Q e) (f n) = []"
      using assms [of _ n] False by (auto simp: filter_empty_conv)
    with False show ?thesis by simp
  qed
  show ?case
    using Suc blk by (auto simp: less_Suc_eq)
qed

lemma edgesAt_fst: "e \<in> set (edgesAt G b) \<Longrightarrow> fst e = b"
  by (auto simp: edgesAt_def)

lemma edgesAt_oriented: "e \<in> set (edgesAt G b) \<Longrightarrow> isDirected G \<or> fst (snd e) \<le> fst e"
  by (auto simp: edgesAt_def)

lemma forEdges_oriented: "e \<in> set (forEdges G) \<Longrightarrow> isDirected G \<or> fst (snd e) \<le> fst e"
  unfolding forEdges_def using edgesAt_oriented by fastforce

lemma relevantNodes_step:
  assumes "k < upperNodeIdBound S0"
  shows "(if hasNode (relevantNodes S0 r k) k
          then (if r k = 0 then removeNode (relevantNodes S0 r k) k else relevantNodes S0 r k)
          else relevantNodes S0 r k)
         = relevantNodes S0 r (Suc k)"
proof -
  let ?z = "upperNodeIdBound S0"
  have h: "hasNode (relevantNodes S0 r k) k"
    using assms by (simp add: hasNode_def relevantNodes_def upperNodeIdBound_def)
  have rm: "(map (\<lambda>u. u < k \<longrightarrow> r u \<noteq> 0) [0..<?z])[k := False]
            = map (\<lambda>u. u < Suc k \<longrightarrow> r u \<noteq> 0) [0..<?z]" if "r k = 0"
  proof (rule nth_equalityI)
    show "length ((map (\<lambda>u. u < k \<longrightarrow> r u \<noteq> 0) [0..<?z])[k := False])
          = length (map (\<lambda>u. u < Suc k \<longrightarrow> r u \<noteq> 0) [0..<?z])" by simp
  next
    fix i
    assume "i < length ((map (\<lambda>u. u < k \<longrightarrow> r u \<noteq> 0) [0..<?z])[k := False])"
    then have "i < ?z" by simp
    then show "(map (\<lambda>u. u < k \<longrightarrow> r u \<noteq> 0) [0..<?z])[k := False] ! i
               = map (\<lambda>u. u < Suc k \<longrightarrow> r u \<noteq> 0) [0..<?z] ! i"
      using that by (auto simp: nth_list_update less_Suc_eq)
  qed
  have keep: "map (\<lambda>u. u < k \<longrightarrow> r u \<noteq> 0) [0..<?z]
              = map (\<lambda>u. u < Suc k \<longrightarrow> r u \<noteq> 0) [0..<?z]" if "r k \<noteq> 0"
    using that by (auto simp: less_Suc_eq)
  show ?thesis
  proof (cases "r k = 0")
    case True
    with h rm show ?thesis by (simp add: removeNode_def relevantNodes_def)
  next
    case False
    with h keep show ?thesis by (simp add: relevantNodes_def)
  qed
qed

lemma relevantNodes_loop:
  assumes "k \<le> upperNodeIdBound S0"
  shows "fold (\<lambda>u S. if hasNode S u then (if r u = 0 then removeNode S u else S) else S)
           [0..<k] (relevantNodes S0 r 0) = relevantNodes S0 r k"
  using assms
proof (induction k)
  case 0
  show ?case by simp
next
  case (Suc k)
  let ?f = "\<lambda>u S. if hasNode S u then (if r u = 0 then removeNode S u else S) else S"
  have "fold ?f [0..<Suc k] (relevantNodes S0 r 0) = ?f k (fold ?f [0..<k] (relevantNodes S0 r 0))"
    by simp
  also have "\<dots> = ?f k (relevantNodes S0 r k)"
    using Suc by simp
  also have "\<dots> = relevantNodes S0 r (Suc k)"
    using Suc.prems by (intro relevantNodes_step) simp
  finally show ?case .
qed

lemma relevantNodes_0: "relevantNodes (newGraph n w d) r 0 = newGraph n w d"
  by (simp add: relevantNodes_def newGraph_def upperNodeIdBound_def map_replicate_const)

lemma subgraphFromNodes_eq:
  "subgraphFromNodes G nodes io ii
   = fold (\<lambda>(u, v, w, i) S.
             if isRelevantNode nodes (subgraphNeighbors G nodes io ii) u
                + isRelevantNode nodes (subgraphNeighbors G nodes io ii) v > 2
             then addEdge S u v w else S)
       (forEdges G)
       (relevantNodes (newGraph (upperNodeIdBound G) (isWeighted G) (isDirected G))
          (isRelevantNode nodes (subgraphNeighbors G nodes io ii)) (upperNodeIdBound G))"
proof -
  let ?S0 = "newGraph (upperNodeIdBound G) (isWeighted G) (isDirected G)"
  have z: "upperNodeIdBound ?S0 = upperNodeIdBound G"
    by (simp add: newGraph_def upperNodeIdBound_def)
  show ?thesis
    unfolding subgraphFromNodes_def Let_def z
    using relevantNodes_loop [of "upperNodeIdBound G" ?S0] z
    by (simp add: relevantNodes_0)
qed

lemma subgraphFromNodes_exists:
  "exists (subgraphFromNodes G nodes io ii)
   = map (\<lambda>u. isRelevantNode nodes (subgraphNeighbors G nodes io ii) u \<noteq> 0)
       [0..<upperNodeIdBound G]"
  unfolding subgraphFromNodes_eq
  by (simp add: fold_addEdge_fields relevantNodes_def newGraph_def upperNodeIdBound_def)

lemma subgraphFromNodes_flags:
  "isWeighted (subgraphFromNodes G nodes io ii) = isWeighted G
   \<and> isDirected (subgraphFromNodes G nodes io ii) = isDirected G
   \<and> hasEdgeIds (subgraphFromNodes G nodes io ii) = False"
  unfolding subgraphFromNodes_eq
  by (simp add: fold_addEdge_fields relevantNodes_def newGraph_def)

text \<open>
  Claim C9. A node of the node set that exists in the input exists in the result,
  whether or not an edge at it survives. The existing nodes of the result are exactly
  the ids below the bound with a relevance score other than 0; the result has the
  \<open>upperNodeIdBound\<close> and the weighted and directed flags of the input.
\<close>

theorem subgraphFromNodes_nodes:
  "(\<forall>u. hasNode (subgraphFromNodes G nodes io ii) u
        = (u < upperNodeIdBound G
           \<and> isRelevantNode nodes (subgraphNeighbors G nodes io ii) u \<noteq> 0))
   \<and> ((\<forall>u\<in>nodes. hasNode G u) \<longrightarrow> (\<forall>u\<in>nodes. hasNode (subgraphFromNodes G nodes io ii) u))
   \<and> upperNodeIdBound (subgraphFromNodes G nodes io ii) = upperNodeIdBound G
   \<and> isWeighted (subgraphFromNodes G nodes io ii) = isWeighted G
   \<and> isDirected (subgraphFromNodes G nodes io ii) = isDirected G"
proof -
  let ?R = "subgraphFromNodes G nodes io ii"
  let ?r = "isRelevantNode nodes (subgraphNeighbors G nodes io ii)"
  have z: "upperNodeIdBound ?R = upperNodeIdBound G"
    by (simp add: upperNodeIdBound_def [of ?R] subgraphFromNodes_exists)
  have h: "hasNode ?R u = (u < upperNodeIdBound G \<and> ?r u \<noteq> 0)" for u
    unfolding hasNode_def z by (auto simp: subgraphFromNodes_exists)
  have n: "hasNode ?R u" if "u \<in> nodes" "hasNode G u" for u
  proof -
    have "u < upperNodeIdBound G" using that(2) by (simp add: hasNode_def)
    moreover have "?r u \<noteq> 0" using that(1) by (simp add: isRelevantNode_def)
    ultimately show ?thesis by (simp only: h simp_thms)
  qed
  from z h n subgraphFromNodes_flags [of G nodes io ii] show ?thesis by blast
qed

lemma forEdges_weight:
  assumes "consistent G" and "(u, v, w, i) \<in> set (forEdges G)"
  shows "(if isWeighted G then w else defaultEdgeWeight) = w"
proof -
  from assms(2) have u: "u < upperNodeIdBound G" and m: "(v, w, i) \<in> set (outEdges G ! u)"
    by (auto simp: forEdges_def edgesAt_def)
  have "adjOk G (outEdges G)" using assms(1) by (simp add: consistent_def)
  from adjOk_entry [OF this u m] show ?thesis by (auto simp: entryOk_def)
qed

lemma subgraphFromNodes_forEdges:
  "forEdges (subgraphFromNodes G nodes io ii)
   = map (\<lambda>(u, v, w, i). (u, v, if isWeighted G then w else defaultEdgeWeight, None))
       (filter (\<lambda>(u, v, w, i).
                  isRelevantNode nodes (subgraphNeighbors G nodes io ii) u
                  + isRelevantNode nodes (subgraphNeighbors G nodes io ii) v > 2)
          (forEdges G))"
proof -
  let ?z = "upperNodeIdBound G"
  let ?r = "isRelevantNode nodes (subgraphNeighbors G nodes io ii)"
  let ?S1 = "relevantNodes (newGraph ?z (isWeighted G) (isDirected G)) ?r ?z"
  let ?R = "subgraphFromNodes G nodes io ii"
  let ?c = "\<lambda>(u, v, w, i). (u, v, if isWeighted G then w else defaultEdgeWeight, None :: edgeid option)"
  let ?Q = "\<lambda>(u, v, w, i). ?r u + ?r v > (2::nat)"
  have z: "upperNodeIdBound ?R = ?z"
    by (simp add: upperNodeIdBound_def [of ?R] subgraphFromNodes_exists)
  have S1: "length (outEdges ?S1) = ?z" "\<not> hasEdgeIds ?S1" "isDirected ?S1 = isDirected G"
    "isWeighted ?S1 = isWeighted G"
    by (simp_all add: relevantNodes_def newGraph_def)
  have e0: "edgesAt ?S1 a = []" if "a < ?z" for a
    using that by (simp add: edgesAt_def relevantNodes_def newGraph_def)
  have ori: "\<forall>e\<in>set (forEdges G). isDirected ?S1 \<or> fst (snd e) \<le> fst e"
    using forEdges_oriented [of _ G] S1(3) by blast
  have row: "edgesAt ?R a = map ?c (filter ?Q (edgesAt G a))" if a: "a < ?z" for a
  proof -
    have "edgesAt ?R a
          = edgesAt ?S1 a
            @ map (\<lambda>(u, v, w, i). (u, v, if isWeighted ?S1 then w else defaultEdgeWeight, None))
                (filter (\<lambda>(u, v, w, i). u = a \<and> ?r u + ?r v > 2) (forEdges G))"
      unfolding subgraphFromNodes_eq
      using a S1(1,2) ori by (intro edgesAt_fold_addEdge) simp_all
    moreover have "filter (\<lambda>(u, v, w, i). u = a \<and> ?r u + ?r v > 2) (forEdges G)
                   = filter (\<lambda>e. fst e = a \<and> ?Q e) (forEdges G)"
      by (intro filter_cong) auto
    moreover have "filter (\<lambda>e. fst e = a \<and> ?Q e) (forEdges G) = filter ?Q (edgesAt G a)"
      unfolding forEdges_def using filter_concat_block [of "edgesAt G" a ?Q ?z] edgesAt_fst a
      by simp
    ultimately show ?thesis
      using e0 [OF a] S1(4) by simp
  qed
  have "forEdges ?R = concat (map (\<lambda>a. map ?c (filter ?Q (edgesAt G a))) [0..<?z])"
    unfolding forEdges_def z using row by (intro arg_cong [where f = concat] map_cong) simp_all
  also have "\<dots> = map ?c (filter ?Q (forEdges G))"
    unfolding forEdges_def by (simp add: map_concat filter_concat comp_def)
  finally show ?thesis .
qed

lemma relevance_some_member:
  "isRelevantNode nodes nb u + isRelevantNode nodes nb v > 2 \<Longrightarrow> u \<in> nodes \<or> v \<in> nodes"
  by (auto simp: isRelevantNode_def split: if_splits)

lemma relevance_both_members:
  "isRelevantNode nodes {} u + isRelevantNode nodes {} v > 2 \<Longrightarrow> u \<in> nodes \<and> v \<in> nodes"
  by (auto simp: isRelevantNode_def split: if_splits)

lemma subgraphFromNodes_edge_kept:
  assumes "e \<in> set (forEdges (subgraphFromNodes G nodes io ii))"
  shows "isRelevantNode nodes (subgraphNeighbors G nodes io ii) (fst e)
         + isRelevantNode nodes (subgraphNeighbors G nodes io ii) (fst (snd e)) > 2"
  using assms unfolding subgraphFromNodes_forEdges by auto

text \<open>
  Claim C4. Without neighbour expansion every edge of the result has both endpoints
  in the node set; with any setting of the two flags every edge of the result has an
  endpoint in the node set. The edges of the result, in iteration order, are the
  edges \<open>(u, v)\<close> of the input with \<open>relevance u + relevance v > 2\<close>, with their
  weights (the result carries no edge ids).
\<close>

theorem subgraphFromNodes_edges:
  "(\<forall>e\<in>set (forEdges (subgraphFromNodes G nodes False False)).
       fst e \<in> nodes \<and> fst (snd e) \<in> nodes)
   \<and> (\<forall>io ii. \<forall>e\<in>set (forEdges (subgraphFromNodes G nodes io ii)).
         fst e \<in> nodes \<or> fst (snd e) \<in> nodes)
   \<and> (consistent G \<longrightarrow>
        (\<forall>io ii. forEdges (subgraphFromNodes G nodes io ii)
           = map (\<lambda>(u, v, w, i). (u, v, w, None))
               (filter (\<lambda>(u, v, w, i).
                          isRelevantNode nodes (subgraphNeighbors G nodes io ii) u
                          + isRelevantNode nodes (subgraphNeighbors G nodes io ii) v > 2)
                  (forEdges G))))"
proof -
  have a: "fst e \<in> nodes \<and> fst (snd e) \<in> nodes"
    if "e \<in> set (forEdges (subgraphFromNodes G nodes False False))" for e
  proof -
    have "subgraphNeighbors G nodes False False = {}" by (simp add: subgraphNeighbors_def)
    with subgraphFromNodes_edge_kept [OF that] show ?thesis
      by (simp add: relevance_both_members)
  qed
  have b: "fst e \<in> nodes \<or> fst (snd e) \<in> nodes"
    if "e \<in> set (forEdges (subgraphFromNodes G nodes io ii))" for e io ii
    using subgraphFromNodes_edge_kept [OF that] by (rule relevance_some_member)
  have c: "forEdges (subgraphFromNodes G nodes io ii)
           = map (\<lambda>(u, v, w, i). (u, v, w, None))
               (filter (\<lambda>(u, v, w, i).
                          isRelevantNode nodes (subgraphNeighbors G nodes io ii) u
                          + isRelevantNode nodes (subgraphNeighbors G nodes io ii) v > 2)
                  (forEdges G))" if "consistent G" for io ii
    unfolding subgraphFromNodes_forEdges
    using forEdges_weight [OF that] by (intro map_cong) auto
  from a b c show ?thesis by blast
qed

theorem subgraphFromNodes_edges_witness:
  "consistent pathGraph
   \<and> forEdges (subgraphFromNodes pathGraph {0, 1} False False) = [(1, 0, 1, None)]
   \<and> forEdges (subgraphFromNodes pathGraph {1} True True) = [(1, 0, 1, None), (2, 1, 1, None)]
   \<and> forEdges (subgraphFromNodes pathGraph {0} True True) = [(1, 0, 1, None)]"
proof -
  have c: "consistent pathGraph" by code_simp
  have e: "forEdges (subgraphFromNodes pathGraph {0, 1} False False) = [(1, 0, 1, None)]"
    "forEdges (subgraphFromNodes pathGraph {1} True True) = [(1, 0, 1, None), (2, 1, 1, None)]"
    "forEdges (subgraphFromNodes pathGraph {0} True True) = [(1, 0, 1, None)]"
    by code_simp+
  from subgraphFromNodes_edges [of pathGraph "{0, 1}"] c e show ?thesis by simp
qed

theorem subgraphFromNodes_nodes_witness:
  "hasNode pathGraph 0 \<and> hasNode pathGraph 3
   \<and> hasNode (subgraphFromNodes pathGraph {0, 3} False False) 0
   \<and> hasNode (subgraphFromNodes pathGraph {0, 3} False False) 3
   \<and> \<not> hasNode (subgraphFromNodes pathGraph {0, 3} False False) 1
   \<and> forEdges (subgraphFromNodes pathGraph {0, 3} False False) = []
   \<and> upperNodeIdBound (subgraphFromNodes pathGraph {0, 3} False False) = 4"
proof -
  have h: "hasNode pathGraph 0" "hasNode pathGraph 3" by code_simp+
  have z: "upperNodeIdBound pathGraph = 4" by code_simp
  have e: "forEdges (subgraphFromNodes pathGraph {0, 3} False False) = []" by code_simp
  have r: "isRelevantNode {0, 3} (subgraphNeighbors pathGraph {0, 3} False False) 1 = 0"
    by (simp add: isRelevantNode_def subgraphNeighbors_def)
  from subgraphFromNodes_nodes [of pathGraph "{0, 3}" False False] h z e r
  show ?thesis by (simp add: isRelevantNode_def)
qed

subsection \<open>Graph Combiner\<close>

lemma fold_same:
  "(\<And>x. x \<in> set xs \<Longrightarrow> f x s = s) \<Longrightarrow> fold f xs s = s"
  by (induction xs) simp_all

lemma fold_addNode:
  "fold (\<lambda>i H. addNode H) xs G
   = G\<lparr> exists := exists G @ replicate (length xs) True,
         outEdges := outEdges G @ replicate (length xs) [],
         inEdges := (if isDirected G then inEdges G @ replicate (length xs) [] else inEdges G) \<rparr>"
proof (induction xs arbitrary: G)
  case Nil
  show ?case by simp
next
  case (Cons x xs)
  show ?case
    by (simp add: Cons.IH) (simp add: addNode_def replicate_app_Cons_same)
qed

lemma setFlags_length [simp]: "length (setFlags g is xs) = length xs"
  unfolding setFlags_def by (induction "is" arbitrary: xs) simp_all

lemma setFlags_nth:
  assumes "distinct is" and "j < length xs"
  shows "setFlags g is xs ! j = (if j \<in> set is then g j (xs ! j) else xs ! j)"
  using assms
proof (induction "is" arbitrary: xs)
  case Nil
  show ?case by (simp add: setFlags_def)
next
  case (Cons i "is")
  have "setFlags g (i # is) xs = setFlags g is (xs[i := g i (xs ! i)])"
    by (simp add: setFlags_def)
  moreover have "setFlags g is (xs[i := g i (xs ! i)]) ! j
      = (if j \<in> set is then g j (xs[i := g i (xs ! i)] ! j) else xs[i := g i (xs ! i)] ! j)"
    using Cons.prems by (intro Cons.IH) simp_all
  ultimately have step: "setFlags g (i # is) xs ! j
      = (if j \<in> set is then g j (xs[i := g i (xs ! i)] ! j) else xs[i := g i (xs ! i)] ! j)"
    by (simp only:)
  show ?case
  proof (cases "j = i")
    case True
    then have "j \<notin> set is" using Cons.prems(1) by simp
    with True Cons.prems(2) show ?thesis unfolding step by simp
  next
    case False
    then show ?thesis unfolding step by simp
  qed
qed

lemma fold_exists_loop:
  assumes "\<And>i H. f i H = H\<lparr> exists := (exists H)[i := g i (exists H ! i)] \<rparr>"
  shows "fold f is H = H\<lparr> exists := setFlags g is (exists H) \<rparr>"
proof (induction "is" arbitrary: H)
  case Nil
  show ?case by (simp add: setFlags_def)
next
  case (Cons i "is")
  show ?case
    by (simp add: Cons.IH) (simp add: assms setFlags_def)
qed

lemma removeLoop_step:
  "(if \<not> hasNode G1 i then removeNode H i else H)
   = H\<lparr> exists := (exists H)[i := (\<lambda>i b. b \<and> hasNode G1 i) i (exists H ! i)] \<rparr>"
  by (simp add: removeNode_def)

lemma restoreLoop_step:
  "(if \<not> hasNode H i \<and> hasNode G1 i then restoreNode H i else H)
   = H\<lparr> exists := (exists H)[i := (\<lambda>i b. b \<or> hasNode G1 i) i (exists H ! i)] \<rparr>"
proof -
  have same: "(exists H)[i := b] = exists H" if "exists H ! i = b" for b
    using that list_update_id [of "exists H" i] by simp
  show ?thesis
  proof (cases "hasNode H i")
    case True
    then have "exists H ! i = True" by (simp add: hasNode_def)
    with True same [of True] show ?thesis by simp
  next
    case nh: False
    show ?thesis
    proof (cases "i < length (exists H)")
      case True
      with nh have nb: "exists H ! i = False" by (simp add: hasNode_def upperNodeIdBound_def)
      show ?thesis
      proof (cases "hasNode G1 i")
        case True
        with nh nb show ?thesis by (simp add: restoreNode_def)
      next
        case g: False
        with nh nb same [of False] show ?thesis by simp
      qed
    next
      case False
      with nh show ?thesis by (simp add: restoreNode_def)
    qed
  qed
qed

lemma merge_eq:
  "merge G G1 = fold (\<lambda>e H. mergeEdge H e) (forEdges G1) (mergeNodes G G1)"
proof -
  let ?z = "upperNodeIdBound G" and ?z1 = "upperNodeIdBound G1"
  let ?A = "fold (\<lambda>i H. addNode H) [?z..<?z1] G"
  let ?Ga = "if ?z1 > ?z
             then fold (\<lambda>i H. if \<not> hasNode G1 i then removeNode H i else H) [?z..<?z1] ?A
             else G"
  let ?Gb = "fold (\<lambda>i H. if \<not> hasNode H i \<and> hasNode G1 i then restoreNode H i else H)
               [0..<upperNodeIdBound ?Ga] ?Ga"
  have Gb: "?Gb = mergeNodes G G1"
  proof (cases "?z1 > ?z")
    case True
    let ?xs = "setFlags (\<lambda>i b. b \<and> hasNode G1 i) [?z..<?z1] (exists G @ replicate (?z1 - ?z) True)"
    have Ga: "?Ga = G\<lparr> exists := ?xs,
                        outEdges := outEdges G @ replicate (?z1 - ?z) [],
                        inEdges := (if isDirected G then inEdges G @ replicate (?z1 - ?z) []
                                    else inEdges G) \<rparr>"
      using True
      by (simp add: fold_exists_loop [where g = "\<lambda>i b. b \<and> hasNode G1 i", OF removeLoop_step]
            fold_addNode)
    have len: "length ?xs = ?z1" using True by (simp add: upperNodeIdBound_def)
    have za: "upperNodeIdBound ?Ga = ?z1"
      unfolding Ga using len by (simp add: upperNodeIdBound_def)
    have ex: "setFlags (\<lambda>i b. b \<or> hasNode G1 i) [0..<?z1] ?xs
              = map (\<lambda>j. (j < ?z \<and> exists G ! j) \<or> hasNode G1 j) [0..<max ?z ?z1]"
    proof (rule nth_equalityI)
      show "length (setFlags (\<lambda>i b. b \<or> hasNode G1 i) [0..<?z1] ?xs)
            = length (map (\<lambda>j. (j < ?z \<and> exists G ! j) \<or> hasNode G1 j) [0..<max ?z ?z1])"
        using True len by simp
    next
      fix j
      assume "j < length (setFlags (\<lambda>i b. b \<or> hasNode G1 i) [0..<?z1] ?xs)"
      then have j: "j < ?z1" using len by simp
      have l2: "j < length (exists G @ replicate (?z1 - ?z) True)"
        using j True by (simp add: upperNodeIdBound_def)
      have "?xs ! j = (if ?z \<le> j then hasNode G1 j else exists G ! j)"
        using j True setFlags_nth [OF _ l2, of "[?z..<?z1]" "\<lambda>i b. b \<and> hasNode G1 i"]
        by (auto simp: nth_append upperNodeIdBound_def)
      moreover have "setFlags (\<lambda>i b. b \<or> hasNode G1 i) [0..<?z1] ?xs ! j
                     = (?xs ! j \<or> hasNode G1 j)"
        using j len setFlags_nth [of "[0..<?z1]" j ?xs "\<lambda>i b. b \<or> hasNode G1 i"] by simp
      ultimately show "setFlags (\<lambda>i b. b \<or> hasNode G1 i) [0..<?z1] ?xs ! j
            = map (\<lambda>j. (j < ?z \<and> exists G ! j) \<or> hasNode G1 j) [0..<max ?z ?z1] ! j"
        using j True by auto
    qed
    have "?Gb = ?Ga\<lparr> exists := setFlags (\<lambda>i b. b \<or> hasNode G1 i) [0..<?z1] (exists ?Ga) \<rparr>"
      unfolding za
      by (rule fold_exists_loop [where g = "\<lambda>i b. b \<or> hasNode G1 i", OF restoreLoop_step])
    also have "\<dots> = mergeNodes G G1"
      unfolding Ga using ex by (simp add: mergeNodes_def)
    finally show ?thesis .
  next
    case False
    have Ga: "?Ga = G" using False by simp
    have ex: "setFlags (\<lambda>i b. b \<or> hasNode G1 i) [0..<?z] (exists G)
              = map (\<lambda>j. (j < ?z \<and> exists G ! j) \<or> hasNode G1 j) [0..<max ?z ?z1]"
    proof (rule nth_equalityI)
      show "length (setFlags (\<lambda>i b. b \<or> hasNode G1 i) [0..<?z] (exists G))
            = length (map (\<lambda>j. (j < ?z \<and> exists G ! j) \<or> hasNode G1 j) [0..<max ?z ?z1])"
        using False by (simp add: upperNodeIdBound_def max_def)
    next
      fix j
      assume "j < length (setFlags (\<lambda>i b. b \<or> hasNode G1 i) [0..<?z] (exists G))"
      then have j: "j < ?z" by (simp add: upperNodeIdBound_def)
      then have jl: "j < length (exists G)" by (simp add: upperNodeIdBound_def)
      have "setFlags (\<lambda>i b. b \<or> hasNode G1 i) [0..<?z] (exists G) ! j
            = (exists G ! j \<or> hasNode G1 j)"
        using j setFlags_nth [OF _ jl, of "[0..<?z]" "\<lambda>i b. b \<or> hasNode G1 i"] by simp
      then show "setFlags (\<lambda>i b. b \<or> hasNode G1 i) [0..<?z] (exists G) ! j
            = map (\<lambda>j. (j < ?z \<and> exists G ! j) \<or> hasNode G1 j) [0..<max ?z ?z1] ! j"
        using j False by (simp add: max_def)
    qed
    have "?Gb = G\<lparr> exists := setFlags (\<lambda>i b. b \<or> hasNode G1 i) [0..<?z] (exists G) \<rparr>"
      unfolding Ga
      by (rule fold_exists_loop [where g = "\<lambda>i b. b \<or> hasNode G1 i", OF restoreLoop_step])
    also have "\<dots> = mergeNodes G G1"
      using ex False by (simp add: mergeNodes_def)
    finally show ?thesis .
  qed
  show ?thesis
    unfolding merge_def Let_def Gb ..
qed

lemma mergeEdge_fields [simp]:
  "exists (mergeEdge H e) = exists H"
  "isWeighted (mergeEdge H e) = isWeighted H"
  "isDirected (mergeEdge H e) = isDirected H"
  "hasEdgeIds (mergeEdge H e) = hasEdgeIds H"
  "length (outEdges (mergeEdge H e)) = length (outEdges H)"
  "length (inEdges (mergeEdge H e)) = length (inEdges H)"
  by (simp_all add: mergeEdge_def split: prod.splits)

lemma mergeEdge_bound [simp]: "upperNodeIdBound (mergeEdge H e) = upperNodeIdBound H"
  by (simp add: upperNodeIdBound_def)

lemma mergeEdge_out_grows:
  assumes "a < length (outEdges H)"
  shows "\<exists>ys. outEdges (mergeEdge H e) ! a = outEdges H ! a @ ys"
proof -
  obtain u v w i where e: "e = (u, v, w, i)" by (cases e) auto
  show ?thesis
  proof (cases "hasEdge H u v")
    case True
    then have "outEdges (mergeEdge H e) ! a = outEdges H ! a @ []" by (simp add: mergeEdge_def e)
    then show ?thesis ..
  next
    case False
    then have "mergeEdge H e = addEdge H u v w" by (simp add: mergeEdge_def e)
    with addEdge_out_nth [OF assms, of u v w] show ?thesis by (simp only:) (rule exI, rule refl)
  qed
qed

lemma mergeEdge_in_grows:
  assumes "a < length (inEdges H)"
  shows "\<exists>ys. inEdges (mergeEdge H e) ! a = inEdges H ! a @ ys"
proof -
  obtain u v w i where e: "e = (u, v, w, i)" by (cases e) auto
  show ?thesis
  proof (cases "hasEdge H u v")
    case True
    then have "inEdges (mergeEdge H e) ! a = inEdges H ! a @ []" by (simp add: mergeEdge_def e)
    then show ?thesis ..
  next
    case False
    then have "mergeEdge H e = addEdge H u v w" by (simp add: mergeEdge_def e)
    with addEdge_in_nth [OF assms, of u v w] show ?thesis by (simp only:) (rule exI, rule refl)
  qed
qed

lemma fold_mergeEdge_fields [simp]:
  "exists (fold (\<lambda>e H. mergeEdge H e) es H) = exists H"
  "isWeighted (fold (\<lambda>e H. mergeEdge H e) es H) = isWeighted H"
  "isDirected (fold (\<lambda>e H. mergeEdge H e) es H) = isDirected H"
  "hasEdgeIds (fold (\<lambda>e H. mergeEdge H e) es H) = hasEdgeIds H"
  "length (outEdges (fold (\<lambda>e H. mergeEdge H e) es H)) = length (outEdges H)"
  "length (inEdges (fold (\<lambda>e H. mergeEdge H e) es H)) = length (inEdges H)"
  by (induction es arbitrary: H) simp_all

lemma fold_mergeEdge_out_grows:
  assumes "a < length (outEdges H)"
  shows "\<exists>ys. outEdges (fold (\<lambda>e H. mergeEdge H e) es H) ! a = outEdges H ! a @ ys"
  using assms
proof (induction es arbitrary: H)
  case Nil
  show ?case by simp
next
  case (Cons e es)
  from mergeEdge_out_grows [OF Cons.prems, of e]
  obtain ys where 1: "outEdges (mergeEdge H e) ! a = outEdges H ! a @ ys" by blast
  have "a < length (outEdges (mergeEdge H e))" using Cons.prems by simp
  from Cons.IH [OF this]
  obtain zs where 2: "outEdges (fold (\<lambda>e H. mergeEdge H e) es (mergeEdge H e)) ! a
                      = outEdges (mergeEdge H e) ! a @ zs" by blast
  show ?case using 1 2 by simp
qed

lemma fold_mergeEdge_in_grows:
  assumes "a < length (inEdges H)"
  shows "\<exists>ys. inEdges (fold (\<lambda>e H. mergeEdge H e) es H) ! a = inEdges H ! a @ ys"
  using assms
proof (induction es arbitrary: H)
  case Nil
  show ?case by simp
next
  case (Cons e es)
  from mergeEdge_in_grows [OF Cons.prems, of e]
  obtain ys where 1: "inEdges (mergeEdge H e) ! a = inEdges H ! a @ ys" by blast
  have "a < length (inEdges (mergeEdge H e))" using Cons.prems by simp
  from Cons.IH [OF this]
  obtain zs where 2: "inEdges (fold (\<lambda>e H. mergeEdge H e) es (mergeEdge H e)) ! a
                      = inEdges (mergeEdge H e) ! a @ zs" by blast
  show ?case using 1 2 by simp
qed

lemma hasEdge_grows:
  assumes "hasEdge H a b" and "length (outEdges H) = upperNodeIdBound H"
      and "upperNodeIdBound H' = upperNodeIdBound H"
      and "\<exists>ys. outEdges H' ! a = outEdges H ! a @ ys"
  shows "hasEdge H' a b"
proof -
  from assms(4) obtain ys where ys: "outEdges H' ! a = outEdges H ! a @ ys" by blast
  from assms(1) have "b \<in> fst ` set (outEdges H ! a)" by (simp add: hasEdge_def)
  then have "b \<in> fst ` set (outEdges H' ! a)" unfolding ys by auto
  with assms(1,3) show ?thesis by (simp add: hasEdge_def)
qed

lemma fold_mergeEdge_hasEdge_mono:
  assumes "hasEdge H a b" and "length (outEdges H) = upperNodeIdBound H"
  shows "hasEdge (fold (\<lambda>e H. mergeEdge H e) es H) a b"
proof -
  have a: "a < length (outEdges H)" using assms by (simp add: hasEdge_def)
  have z: "upperNodeIdBound (fold (\<lambda>e H. mergeEdge H e) es H) = upperNodeIdBound H"
    by (simp add: upperNodeIdBound_def)
  show ?thesis
    by (rule hasEdge_grows [OF assms z fold_mergeEdge_out_grows [OF a]])
qed

lemma mergeEdge_hasEdge:
  assumes "u < upperNodeIdBound H" "v < upperNodeIdBound H"
      and "length (outEdges H) = upperNodeIdBound H"
  shows "hasEdge (mergeEdge H (u, v, w, i)) u v"
proof (cases "hasEdge H u v")
  case True
  then show ?thesis by (simp add: mergeEdge_def)
next
  case False
  have "u < length (outEdges H)" using assms by simp
  from addEdge_out_nth [OF this, of u v w] have "v \<in> fst ` set (outEdges (addEdge H u v w) ! u)"
    by (simp add: entry_def)
  with False assms show ?thesis by (simp add: mergeEdge_def hasEdge_def)
qed

lemma fold_mergeEdge_hasEdge:
  assumes "(u, v, w, i) \<in> set es"
      and "\<forall>e\<in>set es. fst e < upperNodeIdBound H \<and> fst (snd e) < upperNodeIdBound H"
      and "length (outEdges H) = upperNodeIdBound H"
  shows "hasEdge (fold (\<lambda>e H. mergeEdge H e) es H) u v"
  using assms
proof (induction es arbitrary: H)
  case Nil
  then show ?case by simp
next
  case (Cons e es)
  have len: "length (outEdges (mergeEdge H e)) = upperNodeIdBound (mergeEdge H e)"
    using Cons.prems(3) by simp
  have bnd: "\<forall>x\<in>set es. fst x < upperNodeIdBound (mergeEdge H e)
                \<and> fst (snd x) < upperNodeIdBound (mergeEdge H e)"
    using Cons.prems(2) by simp
  show ?case
  proof (cases "e = (u, v, w, i)")
    case True
    have "hasEdge (mergeEdge H e) u v"
      unfolding True using Cons.prems(2,3) True by (intro mergeEdge_hasEdge) auto
    from fold_mergeEdge_hasEdge_mono [OF this len] show ?thesis by simp
  next
    case False
    with Cons.prems(1) have "(u, v, w, i) \<in> set es" by simp
    from Cons.IH [OF this bnd len] show ?thesis by simp
  qed
qed

lemma forEdges_mem:
  "(a, b, w, i) \<in> set (forEdges H)
   \<longleftrightarrow> a < upperNodeIdBound H \<and> (b, w, i) \<in> set (outEdges H ! a) \<and> (isDirected H \<or> b \<le> a)"
  by (auto simp: forEdges_def edgesAt_def)

lemma consistent_lengths:
  assumes "consistent G"
  shows "length (outEdges G) = upperNodeIdBound G"
    and "isDirected G \<Longrightarrow> length (inEdges G) = upperNodeIdBound G"
  using assms by (simp_all add: consistent_def adjOk_iff)

lemma mergeNodes_fields [simp]:
  "isWeighted (mergeNodes G G1) = isWeighted G"
  "isDirected (mergeNodes G G1) = isDirected G"
  "hasEdgeIds (mergeNodes G G1) = hasEdgeIds G"
  "upperNodeIdBound (mergeNodes G G1) = max (upperNodeIdBound G) (upperNodeIdBound G1)"
  by (simp_all add: mergeNodes_def upperNodeIdBound_def)

lemma mergeNodes_exists:
  assumes "j < max (upperNodeIdBound G) (upperNodeIdBound G1)"
  shows "exists (mergeNodes G G1) ! j = ((j < upperNodeIdBound G \<and> exists G ! j) \<or> hasNode G1 j)"
  using assms by (simp add: mergeNodes_def)

lemma mergeNodes_out:
  assumes "length (outEdges G) = upperNodeIdBound G"
  shows "length (outEdges (mergeNodes G G1)) = max (upperNodeIdBound G) (upperNodeIdBound G1)"
    and "u < upperNodeIdBound G \<Longrightarrow> outEdges (mergeNodes G G1) ! u = outEdges G ! u"
  using assms by (simp_all add: mergeNodes_def nth_append)

lemma mergeNodes_in:
  assumes "length (inEdges G) = upperNodeIdBound G" and "isDirected G"
  shows "length (inEdges (mergeNodes G G1)) = max (upperNodeIdBound G) (upperNodeIdBound G1)"
    and "u < upperNodeIdBound G \<Longrightarrow> inEdges (mergeNodes G G1) ! u = inEdges G ! u"
  using assms by (simp_all add: mergeNodes_def nth_append)

lemma merge_bound: "upperNodeIdBound (merge G G1) = max (upperNodeIdBound G) (upperNodeIdBound G1)"
proof -
  have "upperNodeIdBound (merge G G1) = upperNodeIdBound (mergeNodes G G1)"
    unfolding merge_eq by (simp add: upperNodeIdBound_def)
  then show ?thesis by simp
qed

lemma merge_hasNode:
  "hasNode (merge G G1) j = (hasNode G j \<or> hasNode G1 j)"
proof (cases "j < max (upperNodeIdBound G) (upperNodeIdBound G1)")
  case True
  have "exists (merge G G1) ! j = exists (mergeNodes G G1) ! j"
    unfolding merge_eq by simp
  with True mergeNodes_exists [OF True] show ?thesis
    by (simp add: hasNode_def [of "merge G G1"] merge_bound) (simp add: hasNode_def)
next
  case False
  then have "\<not> j < upperNodeIdBound G" "\<not> j < upperNodeIdBound G1" by simp_all
  with False show ?thesis by (simp add: hasNode_def merge_bound)
qed

lemma merge_out_grows:
  assumes "length (outEdges G) = upperNodeIdBound G" and "u < upperNodeIdBound G"
  shows "\<exists>ys. outEdges (merge G G1) ! u = outEdges G ! u @ ys"
proof -
  have "u < length (outEdges (mergeNodes G G1))"
    using assms mergeNodes_out(1) [OF assms(1), of G1] by simp
  from fold_mergeEdge_out_grows [OF this, of "forEdges G1"] show ?thesis
    unfolding merge_eq using mergeNodes_out(2) [OF assms] by simp
qed

lemma merge_in_grows:
  assumes "length (inEdges G) = upperNodeIdBound G" and "isDirected G" and "u < upperNodeIdBound G"
  shows "\<exists>ys. inEdges (merge G G1) ! u = inEdges G ! u @ ys"
proof -
  have "u < length (inEdges (mergeNodes G G1))"
    using assms mergeNodes_in(1) [OF assms(1,2), of G1] by simp
  from fold_mergeEdge_in_grows [OF this, of "forEdges G1"] show ?thesis
    unfolding merge_eq using mergeNodes_in(2) [OF assms] by simp
qed

text \<open>
  Claim C10. \<open>merge\<close> keeps what the target had: a node that existed still exists
  (the nodes of the result are those of the target and those of the source),
  the adjacency lists of every node id of the target are extended at their end only,
  so that every edge of the target is an edge of the result with its weight and edge
  id; the id space only grows and the flags are unchanged.
\<close>

theorem merge_frame:
  assumes "consistent G"
  shows "(\<forall>v. hasNode G v \<longrightarrow> hasNode (merge G G1) v)
       \<and> (\<forall>v. hasNode (merge G G1) v = (hasNode G v \<or> hasNode G1 v))
       \<and> (\<forall>u<upperNodeIdBound G. \<exists>ys. outEdges (merge G G1) ! u = outEdges G ! u @ ys)
       \<and> (isDirected G \<longrightarrow>
            (\<forall>u<upperNodeIdBound G. \<exists>ys. inEdges (merge G G1) ! u = inEdges G ! u @ ys))
       \<and> set (forEdges G) \<subseteq> set (forEdges (merge G G1))
       \<and> upperNodeIdBound G \<le> upperNodeIdBound (merge G G1)
       \<and> isWeighted (merge G G1) = isWeighted G
       \<and> isDirected (merge G G1) = isDirected G
       \<and> hasEdgeIds (merge G G1) = hasEdgeIds G"
proof -
  note len = consistent_lengths [OF assms]
  have nodes: "\<forall>v. hasNode G v \<longrightarrow> hasNode (merge G G1) v"
    by (simp add: merge_hasNode)
  have out: "\<forall>u<upperNodeIdBound G. \<exists>ys. outEdges (merge G G1) ! u = outEdges G ! u @ ys"
    using merge_out_grows [OF len(1)] by blast
  have inn: "isDirected G \<longrightarrow>
            (\<forall>u<upperNodeIdBound G. \<exists>ys. inEdges (merge G G1) ! u = inEdges G ! u @ ys)"
    using merge_in_grows [OF len(2)] by blast
  have flags: "isWeighted (merge G G1) = isWeighted G" "isDirected (merge G G1) = isDirected G"
    "hasEdgeIds (merge G G1) = hasEdgeIds G"
    unfolding merge_eq by simp_all
  have bound: "upperNodeIdBound G \<le> upperNodeIdBound (merge G G1)"
    by (simp add: merge_bound)
  have edges: "set (forEdges G) \<subseteq> set (forEdges (merge G G1))"
  proof
    fix e assume e: "e \<in> set (forEdges G)"
    obtain a b w i where q: "e = (a, b, w, i)" by (cases e) auto
    from e have m: "a < upperNodeIdBound G" "(b, w, i) \<in> set (outEdges G ! a)"
      "isDirected G \<or> b \<le> a"
      unfolding q forEdges_mem by simp_all
    from out m(1) obtain ys where "outEdges (merge G G1) ! a = outEdges G ! a @ ys" by blast
    with m have "(b, w, i) \<in> set (outEdges (merge G G1) ! a)" by simp
    with m bound flags(2) show "e \<in> set (forEdges (merge G G1))"
      unfolding q forEdges_mem by simp
  qed
  have union: "\<forall>v. hasNode (merge G G1) v = (hasNode G v \<or> hasNode G1 v)"
    by (simp add: merge_hasNode)
  from nodes union out inn edges bound flags show ?thesis by blast
qed

lemma forEdges_bounds:
  assumes "consistent G1" and "e \<in> set (forEdges G1)"
  shows "fst e < upperNodeIdBound G1 \<and> fst (snd e) < upperNodeIdBound G1"
proof -
  obtain a b w i where q: "e = (a, b, w, i)" by (cases e) auto
  from assms(2) have m: "a < upperNodeIdBound G1" "(b, w, i) \<in> set (outEdges G1 ! a)"
    unfolding q forEdges_mem by simp_all
  have "adjOk G1 (outEdges G1)" using assms(1) by (simp add: consistent_def)
  from adjOk_entry [OF this m] have "hasNode G1 b" by (simp add: entryOk_def)
  with m(1) show ?thesis by (simp add: q hasNode_def)
qed

lemma merge_hasEdge:
  assumes "consistent G" and "consistent G1" and "e \<in> set (forEdges G1)"
  shows "hasEdge (merge G G1) (fst e) (fst (snd e))"
proof -
  obtain a b w i where q: "e = (a, b, w, i)" by (cases e) auto
  have bnd: "\<forall>x\<in>set (forEdges G1). fst x < upperNodeIdBound (mergeNodes G G1)
               \<and> fst (snd x) < upperNodeIdBound (mergeNodes G G1)"
    using forEdges_bounds [OF assms(2)] by fastforce
  have len: "length (outEdges (mergeNodes G G1)) = upperNodeIdBound (mergeNodes G G1)"
    using mergeNodes_out(1) [OF consistent_lengths(1) [OF assms(1)], of G1] by simp
  from assms(3) have "(a, b, w, i) \<in> set (forEdges G1)" by (simp add: q)
  from fold_mergeEdge_hasEdge [OF this bnd len] show ?thesis
    by (simp add: merge_eq q)
qed

lemma mergeNodes_merge:
  "mergeNodes (merge G G1) G1 = merge G G1"
proof -
  let ?M = "merge G G1"
  have z: "upperNodeIdBound ?M = max (upperNodeIdBound G) (upperNodeIdBound G1)"
    by (rule merge_bound)
  then have mx: "max (upperNodeIdBound ?M) (upperNodeIdBound G1) = upperNodeIdBound ?M"
    and d: "upperNodeIdBound G1 - upperNodeIdBound ?M = 0" by simp_all
  have ex: "map (\<lambda>j. (j < upperNodeIdBound ?M \<and> exists ?M ! j) \<or> hasNode G1 j)
              [0..<upperNodeIdBound ?M] = exists ?M"
  proof (rule nth_equalityI)
    show "length (map (\<lambda>j. (j < upperNodeIdBound ?M \<and> exists ?M ! j) \<or> hasNode G1 j)
              [0..<upperNodeIdBound ?M]) = length (exists ?M)"
      by (simp add: upperNodeIdBound_def)
  next
    fix j
    assume "j < length (map (\<lambda>j. (j < upperNodeIdBound ?M \<and> exists ?M ! j) \<or> hasNode G1 j)
              [0..<upperNodeIdBound ?M])"
    then have j: "j < upperNodeIdBound ?M" by simp
    have "hasNode G1 j \<Longrightarrow> exists ?M ! j"
      using merge_hasNode [of G G1 j] by (simp add: hasNode_def [of ?M])
    with j show "map (\<lambda>j. (j < upperNodeIdBound ?M \<and> exists ?M ! j) \<or> hasNode G1 j)
              [0..<upperNodeIdBound ?M] ! j = exists ?M ! j"
      by auto
  qed
  show ?thesis
    unfolding mergeNodes_def mx d ex by simp
qed

lemma simpleGraph_iff:
  "simpleGraph G \<longleftrightarrow>
     (\<forall>u<upperNodeIdBound G.
        distinct (map fst (outEdges G ! u))
        \<and> (\<forall>v\<in>fst ` set (outEdges G ! u).
              v < upperNodeIdBound G \<and> (isDirected G \<or> u \<in> fst ` set (outEdges G ! v))))"
  unfolding simpleGraph_def list_all_iff by (simp add: Ball_def)

lemma addEdge_neighbours:
  assumes "a < length (outEdges H)"
  shows "map fst (outEdges (addEdge H u v w) ! a)
         = map fst (outEdges H ! a)
           @ (if a = u then [v] else [])
           @ (if \<not> isDirected H \<and> u \<noteq> v \<and> a = v then [u] else [])"
  unfolding addEdge_out_nth [OF assms] by (simp add: entry_def)

lemma simpleGraph_addEdge:
  assumes len: "length (outEdges H) = upperNodeIdBound H"
      and u: "u < upperNodeIdBound H" and v: "v < upperNodeIdBound H"
      and s: "simpleGraph H" and ne: "\<not> hasEdge H u v"
  shows "simpleGraph (addEdge H u v w)"
proof -
  let ?H = "addEdge H u v w"
  let ?z = "upperNodeIdBound H"
  let ?nb = "\<lambda>G a. fst ` set (outEdges G ! a)"
  from s have d: "\<And>a. a < ?z \<Longrightarrow> distinct (map fst (outEdges H ! a))"
    and rng: "\<And>a b. a < ?z \<Longrightarrow> b \<in> ?nb H a \<Longrightarrow> b < ?z"
    and sym: "\<And>a b. a < ?z \<Longrightarrow> b \<in> ?nb H a \<Longrightarrow> \<not> isDirected H \<Longrightarrow> a \<in> ?nb H b"
    unfolding simpleGraph_iff by blast+
  have nv: "v \<notin> ?nb H u" using ne u v by (simp add: hasEdge_def)
  have nu: "u \<notin> ?nb H v" if "\<not> isDirected H"
    using sym [OF v _ that] nv by blast
  have nbs: "map fst (outEdges ?H ! a)
             = map fst (outEdges H ! a)
               @ (if a = u then [v] else [])
               @ (if \<not> isDirected H \<and> u \<noteq> v \<and> a = v then [u] else [])"
    if "a < ?z" for a
    using that len by (intro addEdge_neighbours) simp
  have nb: "?nb ?H a = ?nb H a \<union> (if a = u then {v} else {})
                        \<union> (if \<not> isDirected H \<and> u \<noteq> v \<and> a = v then {u} else {})"
    if a: "a < ?z" for a
  proof -
    have "?nb ?H a = set (map fst (outEdges ?H ! a))" by simp
    also have "\<dots> = ?nb H a \<union> (if a = u then {v} else {})
                        \<union> (if \<not> isDirected H \<and> u \<noteq> v \<and> a = v then {u} else {})"
      unfolding nbs [OF a] by auto
    finally show ?thesis .
  qed
  have "distinct (map fst (outEdges ?H ! a))
        \<and> (\<forall>b\<in>?nb ?H a. b < ?z \<and> (isDirected H \<or> a \<in> ?nb ?H b))" if a: "a < ?z" for a
  proof
    show "distinct (map fst (outEdges ?H ! a))"
      unfolding nbs [OF a] using d [OF a] nv nu by auto
    show "\<forall>b\<in>?nb ?H a. b < ?z \<and> (isDirected H \<or> a \<in> ?nb ?H b)"
    proof
      fix b assume "b \<in> ?nb ?H a"
      then consider "b \<in> ?nb H a" | "a = u" "b = v"
        | "\<not> isDirected H" "u \<noteq> v" "a = v" "b = u"
        unfolding nb [OF a] by (auto split: if_splits)
      then show "b < ?z \<and> (isDirected H \<or> a \<in> ?nb ?H b)"
      proof cases
        case 1
        from rng [OF a 1] have bz: "b < ?z" .
        have "isDirected H \<or> a \<in> ?nb ?H b"
        proof (cases "isDirected H")
          case True
          then show ?thesis ..
        next
          case False
          from sym [OF a 1 False] have "a \<in> ?nb H b" .
          then have "a \<in> ?nb ?H b" unfolding nb [OF bz] by blast
          then show ?thesis ..
        qed
        with bz show ?thesis ..
      next
        case 2
        have "isDirected H \<or> u \<in> ?nb ?H v"
          unfolding nb [OF v] by auto
        with 2 v show ?thesis by simp
      next
        case 3
        have "v \<in> ?nb ?H u" unfolding nb [OF u] by simp
        with 3 u show ?thesis by simp
      qed
    qed
  qed
  then show ?thesis
    unfolding simpleGraph_iff [of ?H] by simp
qed

lemma simpleGraph_mergeEdge:
  assumes "length (outEdges H) = upperNodeIdBound H"
      and "fst e < upperNodeIdBound H" and "fst (snd e) < upperNodeIdBound H"
      and "simpleGraph H"
  shows "simpleGraph (mergeEdge H e)"
proof -
  obtain u v w i where e: "e = (u, v, w, i)" by (cases e) auto
  show ?thesis
  proof (cases "hasEdge H u v")
    case True
    with assms(4) show ?thesis by (simp add: mergeEdge_def e)
  next
    case False
    from simpleGraph_addEdge [OF assms(1) _ _ assms(4) False, of w] assms(2,3) False
    show ?thesis by (simp add: mergeEdge_def e)
  qed
qed

lemma simpleGraph_fold_mergeEdge:
  assumes "length (outEdges H) = upperNodeIdBound H"
      and "\<forall>e\<in>set es. fst e < upperNodeIdBound H \<and> fst (snd e) < upperNodeIdBound H"
      and "simpleGraph H"
  shows "simpleGraph (fold (\<lambda>e H. mergeEdge H e) es H)"
  using assms
proof (induction es arbitrary: H)
  case Nil
  then show ?case by simp
next
  case (Cons e es)
  have 1: "length (outEdges (mergeEdge H e)) = upperNodeIdBound (mergeEdge H e)"
    using Cons.prems(1) by simp
  have 2: "\<forall>x\<in>set es. fst x < upperNodeIdBound (mergeEdge H e)
             \<and> fst (snd x) < upperNodeIdBound (mergeEdge H e)"
    using Cons.prems(2) by simp
  have 3: "simpleGraph (mergeEdge H e)"
    using Cons.prems by (intro simpleGraph_mergeEdge) simp_all
  from Cons.IH [OF 1 2 3] show ?case by simp
qed

lemma simpleGraph_mergeNodes:
  assumes len: "length (outEdges G) = upperNodeIdBound G" and s: "simpleGraph G"
  shows "simpleGraph (mergeNodes G G1)"
proof -
  let ?N = "mergeNodes G G1"
  let ?z = "upperNodeIdBound G"
  have row: "outEdges ?N ! a = (if a < ?z then outEdges G ! a else [])"
    if "a < upperNodeIdBound ?N" for a
  proof (cases "a < ?z")
    case True
    with len show ?thesis by (simp add: mergeNodes_def nth_append)
  next
    case False
    from that have "a < max ?z (upperNodeIdBound G1)" by simp
    with False have "a - ?z < upperNodeIdBound G1 - ?z" by simp
    with False len show ?thesis by (simp add: mergeNodes_def nth_append)
  qed
  from s have d: "\<And>a. a < ?z \<Longrightarrow> distinct (map fst (outEdges G ! a))"
    and rng: "\<And>a b. a < ?z \<Longrightarrow> b \<in> fst ` set (outEdges G ! a) \<Longrightarrow> b < ?z"
    and sym: "\<And>a b. a < ?z \<Longrightarrow> b \<in> fst ` set (outEdges G ! a) \<Longrightarrow> \<not> isDirected G
               \<Longrightarrow> a \<in> fst ` set (outEdges G ! b)"
    unfolding simpleGraph_iff by blast+
  have "distinct (map fst (outEdges ?N ! a))
        \<and> (\<forall>b\<in>fst ` set (outEdges ?N ! a).
              b < upperNodeIdBound ?N \<and> (isDirected ?N \<or> a \<in> fst ` set (outEdges ?N ! b)))"
    if a: "a < upperNodeIdBound ?N" for a
  proof (cases "a < ?z")
    case True
    have r: "outEdges ?N ! a = outEdges G ! a" using row [OF a] True by simp
    show ?thesis
    proof
      show "distinct (map fst (outEdges ?N ! a))" unfolding r by (rule d [OF True])
      show "\<forall>b\<in>fst ` set (outEdges ?N ! a).
              b < upperNodeIdBound ?N \<and> (isDirected ?N \<or> a \<in> fst ` set (outEdges ?N ! b))"
        unfolding r
      proof
        fix b assume b: "b \<in> fst ` set (outEdges G ! a)"
        from rng [OF True b] have bz: "b < ?z" .
        then have bN: "b < upperNodeIdBound ?N" by simp
        have rb: "outEdges ?N ! b = outEdges G ! b" using row [OF bN] bz by simp
        show "b < upperNodeIdBound ?N \<and> (isDirected ?N \<or> a \<in> fst ` set (outEdges ?N ! b))"
          unfolding rb using bN sym [OF True b] by auto
      qed
    qed
  next
    case False
    then have "outEdges ?N ! a = []" using row [OF a] by simp
    then show ?thesis by simp
  qed
  then show ?thesis
    unfolding simpleGraph_iff [of ?N] by simp
qed

lemma simpleGraph_merge:
  assumes c: "consistent G" and c1: "consistent G1" and s: "simpleGraph G"
  shows "simpleGraph (merge G G1)"
proof -
  note len = consistent_lengths(1) [OF c]
  have l: "length (outEdges (mergeNodes G G1)) = upperNodeIdBound (mergeNodes G G1)"
    using mergeNodes_out(1) [OF len, of G1] by simp
  have b: "\<forall>e\<in>set (forEdges G1). fst e < upperNodeIdBound (mergeNodes G G1)
             \<and> fst (snd e) < upperNodeIdBound (mergeNodes G G1)"
    using forEdges_bounds [OF c1] by fastforce
  show ?thesis
    unfolding merge_eq
    by (rule simpleGraph_fold_mergeEdge [OF l b simpleGraph_mergeNodes [OF len s]])
qed

text \<open>
  Claim C5. A source edge is added only when the target has no edge between its
  endpoints; after \<open>merge\<close> the target has an edge for every source edge, so that
  merging the same source a second time changes nothing; a target without duplicate
  edges has none afterwards. In the scenario of the
  specification (a single node merged with two nodes and the edge between them) the
  result is the two-node graph with its single edge, also after a second merge.
\<close>

theorem merge_idempotent:
  assumes "consistent G" and "consistent G1"
  shows "merge (merge G G1) G1 = merge G G1
       \<and> (\<forall>e\<in>set (forEdges G1). hasEdge (merge G G1) (fst e) (fst (snd e)))
       \<and> (\<forall>H u v w i. hasEdge H u v \<longrightarrow> mergeEdge H (u, v, w, i) = H)
       \<and> (simpleGraph G \<longrightarrow> simpleGraph (merge G G1))
       \<and> merge singleNode pairGraph = pairGraph
       \<and> merge (merge singleNode pairGraph) pairGraph = pairGraph"
proof -
  let ?M = "merge G G1"
  have present: "\<forall>e\<in>set (forEdges G1). hasEdge ?M (fst e) (fst (snd e))"
    using merge_hasEdge [OF assms] by blast
  have guard: "\<forall>H u v w i. hasEdge H u v \<longrightarrow> mergeEdge H (u, v, w, i) = H"
    by (simp add: mergeEdge_def)
  have "mergeEdge ?M e = ?M" if "e \<in> set (forEdges G1)" for e
  proof -
    obtain a b w i where q: "e = (a, b, w, i)" by (cases e) auto
    from present that have "hasEdge ?M a b" unfolding q by fastforce
    then show ?thesis by (simp add: q mergeEdge_def)
  qed
  then have "fold (\<lambda>e H. mergeEdge H e) (forEdges G1) ?M = ?M"
    by (intro fold_same) simp
  then have idem: "merge ?M G1 = ?M"
    by (simp add: merge_eq [of ?M G1] mergeNodes_merge)
  have s1: "merge singleNode pairGraph = pairGraph" by code_simp
  have s2: "merge (merge singleNode pairGraph) pairGraph = pairGraph" by code_simp
  have simple: "simpleGraph G \<longrightarrow> simpleGraph (merge G G1)"
    using simpleGraph_merge [OF assms] by blast
  from idem present guard simple s1 s2 show ?thesis by blast
qed

theorem merge_idempotent_witness:
  "consistent singleNode \<and> consistent pairGraph \<and> simpleGraph singleNode
   \<and> merge (merge singleNode pairGraph) pairGraph = merge singleNode pairGraph
   \<and> forEdges (merge singleNode pairGraph) = [(1, 0, 1, None)]
   \<and> hasEdge (merge singleNode pairGraph) 1 0
   \<and> simpleGraph (merge singleNode pairGraph)"
proof -
  have c: "consistent singleNode" "consistent pairGraph" by code_simp+
  have s: "simpleGraph singleNode" by code_simp
  have e: "forEdges (merge singleNode pairGraph) = [(1, 0, 1, None)]"
    "hasEdge (merge singleNode pairGraph) 1 0" by code_simp+
  from merge_idempotent [OF c] c s e show ?thesis by blast
qed

theorem merge_frame_witness:
  "consistent scenarioGraph
   \<and> hasNode scenarioGraph 3 \<and> hasNode (merge scenarioGraph pairGraph) 3
   \<and> set (forEdges scenarioGraph) \<subseteq> set (forEdges (merge scenarioGraph pairGraph))
   \<and> forEdges (merge scenarioGraph pairGraph)
       = [(0, 1, 1, None), (1, 3, 1, None), (1, 0, 1, None), (3, 0, 1, None)]"
proof -
  have c: "consistent scenarioGraph" by code_simp
  have h: "hasNode scenarioGraph 3" by code_simp
  have e: "forEdges (merge scenarioGraph pairGraph)
       = [(0, 1, 1, None), (1, 3, 1, None), (1, 0, 1, None), (3, 0, 1, None)]" by code_simp
  from merge_frame [OF c, of pairGraph] c h e show ?thesis by blast
qed

subsection \<open>Id Compactor\<close>

lemma forNodes_sorted: "sorted_wrt (<) (forNodes G)"
  unfolding forNodes_def by (intro sorted_wrt_filter) (simp add: sorted_wrt_upt)

lemma forNodes_distinct: "distinct (forNodes G)"
  unfolding forNodes_def by simp

lemma forNodes_set: "set (forNodes G) = {u. hasNode G u}"
  by (auto simp: forNodes_def hasNode_def)

lemma count_flags:
  "length (filter (\<lambda>i. xs ! i) [0..<length xs]) = length (filter (\<lambda>b. b) xs)"
proof (induction xs rule: rev_induct)
  case Nil
  show ?case by simp
next
  case (snoc x xs)
  have "filter (\<lambda>i. (xs @ [x]) ! i) [0..<length xs] = filter (\<lambda>i. xs ! i) [0..<length xs]"
    by (intro filter_cong) (simp_all add: nth_append)
  with snoc show ?case by simp
qed

lemma numberOfNodes_forNodes: "numberOfNodes G = length (forNodes G)"
proof -
  have "forNodes G = filter (\<lambda>i. exists G ! i) [0..<length (exists G)]"
    unfolding forNodes_def upperNodeIdBound_def
    by (intro filter_cong) (simp_all add: hasNode_def upperNodeIdBound_def)
  then show ?thesis by (simp add: numberOfNodes_def count_flags)
qed

lemma fold_mapInsert:
  assumes "distinct xs" and "set xs \<inter> fst ` set m = {}"
  shows "fold (\<lambda>v (nodeIdMap, continuousId).
                 (mapInsert nodeIdMap (v, continuousId), continuousId + 1)) xs (m, c)
         = (m @ zip xs [c..<c + length xs], c + length xs)"
  using assms
proof (induction xs arbitrary: m c)
  case Nil
  show ?case by simp
next
  case (Cons x xs)
  have ins: "mapInsert m (x, c) = m @ [(x, c)]"
    using Cons.prems(2) by (auto simp: mapInsert_def)
  have disj: "set xs \<inter> fst ` set (m @ [(x, c)]) = {}"
    using Cons.prems by auto
  have d: "distinct xs" using Cons.prems(1) by simp
  have "c < c + length (x # xs)" by simp
  from upt_conv_Cons [OF this]
  have "[c..<c + length (x # xs)] = c # [Suc c..<Suc c + length xs]" by simp
  then show ?case
    using Cons.IH [OF d disj, of "Suc c"] by (simp add: ins)
qed

lemma getContinuousNodeIds_zip:
  "getContinuousNodeIds G = zip (forNodes G) [0..<numberOfNodes G]"
  unfolding getContinuousNodeIds_def
  using fold_mapInsert [OF forNodes_distinct, of G "[]" 0]
  by (simp add: numberOfNodes_forNodes)

lemma fold_invert:
  assumes "\<forall>p\<in>set ps. snd p < length ivm" and "distinct (map snd ps)"
  shows "\<exists>ivm'. fold (\<lambda>(first, second) r.
                   case r of
                     Inl e \<Rightarrow> Inl e
                   | Inr invertedIdMap \<Rightarrow>
                       if second < length invertedIdMap
                       then Inr (invertedIdMap[second := first])
                       else Inl out_of_range) ps (Inr ivm) = Inr ivm'
           \<and> length ivm' = length ivm
           \<and> (\<forall>p\<in>set ps. ivm' ! snd p = fst p)
           \<and> (\<forall>j. j \<notin> snd ` set ps \<longrightarrow> ivm' ! j = ivm ! j)"
  using assms
proof (induction ps arbitrary: ivm)
  case Nil
  show ?case by simp
next
  case (Cons p ps)
  obtain k v where p: "p = (k, v)" by (cases p) auto
  let ?f = "\<lambda>(first, second) r.
                   case r of
                     Inl e \<Rightarrow> Inl e
                   | Inr invertedIdMap \<Rightarrow>
                       if second < length invertedIdMap
                       then Inr (invertedIdMap[second := first])
                       else Inl out_of_range"
  let ?ivm1 = "ivm[v := k]"
  have v: "v < length ivm" using Cons.prems(1) by (simp add: p)
  have nv: "v \<notin> snd ` set ps" using Cons.prems(2) by (simp add: p)
  have b: "\<forall>q\<in>set ps. snd q < length ?ivm1" using Cons.prems(1) by simp
  have d: "distinct (map snd ps)" using Cons.prems(2) by simp
  from Cons.IH [OF b d] obtain ivm' where
    r: "fold ?f ps (Inr ?ivm1) = Inr ivm'" and l: "length ivm' = length ?ivm1"
    and hit: "\<forall>q\<in>set ps. ivm' ! snd q = fst q"
    and miss: "\<forall>j. j \<notin> snd ` set ps \<longrightarrow> ivm' ! j = ?ivm1 ! j"
    by blast
  have 1: "fold ?f (p # ps) (Inr ivm) = Inr ivm'"
    using r v by (simp add: p)
  have 2: "length ivm' = length ivm" using l by simp
  have 3: "\<forall>q\<in>set (p # ps). ivm' ! snd q = fst q"
    using hit miss nv v by (simp add: p)
  have 4: "\<forall>j. j \<notin> snd ` set (p # ps) \<longrightarrow> ivm' ! j = ivm ! j"
    using miss by (auto simp: p)
  from 1 2 3 4 show ?case by blast
qed

lemma zip_upt_mem:
  "(k, j) \<in> set (zip ns [0..<length ns]) \<longleftrightarrow> j < length ns \<and> ns ! j = k"
  by (auto simp: in_set_zip)

lemma invert_any_order:
  assumes s: "set ps = set (zip ns [0..<length ns])" and dk: "distinct (map fst ps)"
      and dn: "distinct ns" and n: "numberOfNodes G = length ns"
  shows "invertContinuousNodeIds ps G = Inr (ns @ [upperNodeIdBound G])"
proof -
  let ?n = "length ns"
  define ivm0 where "ivm0 = (replicate (?n + 1) (0::nat))[?n := upperNodeIdBound G]"
  have l0: "length ivm0 = ?n + 1"
    unfolding ivm0_def by (simp only: length_list_update length_replicate)
  have last0: "ivm0 ! ?n = upperNodeIdBound G"
    unfolding ivm0_def by (rule nth_list_update_eq) (simp del: replicate_Suc)
  have dps: "distinct ps" using dk by (rule distinct_map [THEN iffD1, THEN conjunct1])
  have dz: "distinct (zip ns [0..<?n])" by (simp add: distinct_zipI1 dn)
  have "length ps = card (set ps)" using dps by (simp add: distinct_card)
  also have "\<dots> = card (set (zip ns [0..<?n]))" by (simp add: s)
  also have "\<dots> = ?n" using dz by (simp add: distinct_card)
  finally have len: "length ps = ?n" .
  have bnd: "\<forall>p\<in>set ps. snd p < length ivm0"
  proof
    fix p assume "p \<in> set ps"
    then have "(fst p, snd p) \<in> set (zip ns [0..<?n])" by (simp add: s)
    then show "snd p < length ivm0" unfolding zip_upt_mem l0 by simp
  qed
  have "inj_on snd (set ps)"
  proof (rule inj_onI)
    fix p q assume pq: "p \<in> set ps" "q \<in> set ps" "snd p = snd q"
    obtain a i where p: "p = (a, i)" by (cases p) auto
    obtain b j where q: "q = (b, j)" by (cases q) auto
    from pq have "(a, i) \<in> set (zip ns [0..<?n])" "(b, j) \<in> set (zip ns [0..<?n])" "i = j"
      unfolding p q s by simp_all
    then have "a = b" unfolding zip_upt_mem by simp
    with \<open>i = j\<close> show "p = q" by (simp add: p q)
  qed
  with dps have dv: "distinct (map snd ps)" by (simp add: distinct_map)
  from fold_invert [OF bnd dv] obtain ivm' where
    r: "fold (\<lambda>(first, second) r.
                   case r of
                     Inl e \<Rightarrow> Inl e
                   | Inr invertedIdMap \<Rightarrow>
                       if second < length invertedIdMap
                       then Inr (invertedIdMap[second := first])
                       else Inl out_of_range) ps (Inr ivm0) = Inr ivm'"
    and l: "length ivm' = length ivm0"
    and hit: "\<forall>p\<in>set ps. ivm' ! snd p = fst p"
    and miss: "\<forall>j. j \<notin> snd ` set ps \<longrightarrow> ivm' ! j = ivm0 ! j"
    by blast
  have "ivm' = ns @ [upperNodeIdBound G]"
  proof (rule nth_equalityI)
    show "length ivm' = length (ns @ [upperNodeIdBound G])" using l l0 by simp
  next
    fix j assume "j < length ivm'"
    then have j: "j \<le> ?n" using l l0 by simp
    show "ivm' ! j = (ns @ [upperNodeIdBound G]) ! j"
    proof (cases "j < ?n")
      case True
      then have "(ns ! j, j) \<in> set ps" unfolding s zip_upt_mem by simp
      with hit have "ivm' ! j = ns ! j" by fastforce
      with True show ?thesis by (simp add: nth_append)
    next
      case False
      with j have e: "j = ?n" by simp
      have "?n \<notin> snd ` set ps"
      proof
        assume "?n \<in> snd ` set ps"
        then obtain p where "p \<in> set ps" "snd p = ?n" by auto
        then have "(fst p, ?n) \<in> set (zip ns [0..<?n])" using s by (metis prod.collapse)
        then show False unfolding zip_upt_mem by simp
      qed
      with miss have "ivm' ! ?n = ivm0 ! ?n" by blast
      then show ?thesis by (simp add: e nth_append last0)
    qed
  qed
  with r show ?thesis
    unfolding invertContinuousNodeIds_def ivm0_def n using len by (simp only: if_False simp_thms)
qed

lemma invert_general:
  assumes len: "length m = numberOfNodes G" and dv: "distinct (map snd m)"
      and bnd: "\<forall>p\<in>set m. snd p < numberOfNodes G"
  shows "\<exists>ivm. invertContinuousNodeIds m G = Inr ivm
           \<and> length ivm = numberOfNodes G + 1
           \<and> (\<forall>p\<in>set m. ivm ! snd p = fst p)
           \<and> ivm ! numberOfNodes G = upperNodeIdBound G"
proof -
  let ?n = "numberOfNodes G"
  define ivm0 where "ivm0 = (replicate (?n + 1) (0::nat))[?n := upperNodeIdBound G]"
  have l0: "length ivm0 = ?n + 1"
    unfolding ivm0_def by (simp only: length_list_update length_replicate)
  have last0: "ivm0 ! ?n = upperNodeIdBound G"
    unfolding ivm0_def by (rule nth_list_update_eq) (simp del: replicate_Suc)
  have b0: "\<forall>p\<in>set m. snd p < length ivm0"
    using bnd unfolding l0 by auto
  from fold_invert [OF b0 dv] obtain ivm' where
    r: "fold (\<lambda>(first, second) r.
                   case r of
                     Inl e \<Rightarrow> Inl e
                   | Inr invertedIdMap \<Rightarrow>
                       if second < length invertedIdMap
                       then Inr (invertedIdMap[second := first])
                       else Inl out_of_range) m (Inr ivm0) = Inr ivm'"
    and l: "length ivm' = length ivm0"
    and hit: "\<forall>p\<in>set m. ivm' ! snd p = fst p"
    and miss: "\<forall>j. j \<notin> snd ` set m \<longrightarrow> ivm' ! j = ivm0 ! j"
    by blast
  have "?n \<notin> snd ` set m" using bnd by auto
  with miss have "ivm' ! ?n = ivm0 ! ?n" by blast
  then have sent: "ivm' ! ?n = upperNodeIdBound G" by (simp only: last0)
  have res: "invertContinuousNodeIds m G = Inr ivm'"
    using r unfolding invertContinuousNodeIds_def ivm0_def len by (simp only: if_False simp_thms)
  from res l [unfolded l0] hit sent show ?thesis by blast
qed

lemma denseId_nth:
  assumes "k < length (forNodes G)"
  shows "the (map_of (getContinuousNodeIds G) (forNodes G ! k)) = k"
proof -
  have "map_of (zip (forNodes G) [0..<length (forNodes G)]) (forNodes G ! k)
        = Some ([0..<length (forNodes G)] ! k)"
    using assms by (intro map_of_zip_nth) (simp_all add: forNodes_distinct)
  with assms show ?thesis
    by (simp add: getContinuousNodeIds_zip numberOfNodes_forNodes)
qed

lemma hasNode_nth:
  "hasNode G u \<longleftrightarrow> (\<exists>k<length (forNodes G). forNodes G ! k = u)"
proof -
  have "hasNode G u \<longleftrightarrow> u \<in> set (forNodes G)" by (simp add: forNodes_set)
  then show ?thesis by (simp only: in_set_conv_nth)
qed

lemma forNodes_nth_mono:
  assumes "i < length (forNodes G)" "j < length (forNodes G)" "forNodes G ! i < forNodes G ! j"
  shows "i < j"
proof (rule ccontr)
  assume "\<not> i < j"
  then consider "j = i" | "j < i" by linarith
  then show False
  proof cases
    case 1
    with assms(3) show False by simp
  next
    case 2
    from sorted_wrt_nth_less [OF forNodes_sorted 2 assms(1)] assms(3) show False by simp
  qed
qed

text \<open>
  The dense ids of a node id map lie below its size (section 3). A value equal to the
  size is still inside the inverted array and overwrites the last entry; a larger one
  is outside the array.
\<close>

lemma invert_value_outside_range:
  "numberOfNodes singleNode = 1 \<and> upperNodeIdBound singleNode = 1
   \<and> invertContinuousNodeIds [(0, 0)] singleNode = Inr [0, 1]
   \<and> invertContinuousNodeIds [(0, 1)] singleNode = Inr [0, 0]
   \<and> invertContinuousNodeIds [(0, 2)] singleNode = Inl out_of_range"
  by code_simp

text \<open>
  Claim C6. \<open>getContinuousNodeIds\<close> pairs the existing node ids, in ascending
  order, with \<open>0, 1, \<dots>\<close>: it has \<open>numberOfNodes\<close> entries and is a bijection from
  the existing ids onto \<open>[0, numberOfNodes)\<close> that preserves the order. Whatever the
  iteration order of the map, \<open>invertContinuousNodeIds\<close> passes its assertion and
  returns the existing ids in ascending order followed by \<open>upperNodeIdBound\<close>: an
  array of \<open>numberOfNodes + 1\<close> entries whose entry at the dense id of a node is the
  node and whose last entry is the bound. The same holds of every node id map of the
  data model (section 3: injective, into \<open>[0, size)\<close>) whose size is \<open>numberOfNodes\<close>,
  in every iteration order: the assertion passes, the array has \<open>numberOfNodes + 1\<close>
  entries, its entry at the dense id of every pair of the map is the original id of
  the pair, and its last entry is \<open>upperNodeIdBound\<close>. A map of another size stops at
  the assertion.
\<close>

theorem continuousNodeIds_bijection:
  "getContinuousNodeIds G = zip (forNodes G) [0..<numberOfNodes G]
   \<and> length (getContinuousNodeIds G) = numberOfNodes G
   \<and> bij_betw (\<lambda>u. the (map_of (getContinuousNodeIds G) u))
        {u. hasNode G u} {0..<numberOfNodes G}
   \<and> (\<forall>u v. hasNode G u \<and> hasNode G v \<and> u < v \<longrightarrow>
         the (map_of (getContinuousNodeIds G) u) < the (map_of (getContinuousNodeIds G) v))
   \<and> (\<forall>m. set m = set (getContinuousNodeIds G) \<and> distinct (map fst m) \<longrightarrow>
         invertContinuousNodeIds m G = Inr (forNodes G @ [upperNodeIdBound G]))
   \<and> length (forNodes G @ [upperNodeIdBound G]) = numberOfNodes G + 1
   \<and> (\<forall>u. hasNode G u \<longrightarrow>
         (forNodes G @ [upperNodeIdBound G]) ! the (map_of (getContinuousNodeIds G) u) = u)
   \<and> (forNodes G @ [upperNodeIdBound G]) ! numberOfNodes G = upperNodeIdBound G
   \<and> (\<forall>m. length m = numberOfNodes G \<and> distinct (map snd m)
            \<and> (\<forall>p\<in>set m. snd p < numberOfNodes G) \<longrightarrow>
         (\<exists>ivm. invertContinuousNodeIds m G = Inr ivm
                \<and> length ivm = numberOfNodes G + 1
                \<and> (\<forall>p\<in>set m. ivm ! snd p = fst p)
                \<and> ivm ! numberOfNodes G = upperNodeIdBound G))
   \<and> (\<forall>m. length m \<noteq> numberOfNodes G \<longrightarrow>
         invertContinuousNodeIds m G = Inl assertion_failure)"
proof -
  let ?ns = "forNodes G" and ?m = "getContinuousNodeIds G"
  let ?f = "\<lambda>u. the (map_of ?m u)"
  note n = numberOfNodes_forNodes [of G]
  have z: "?m = zip ?ns [0..<numberOfNodes G]" by (rule getContinuousNodeIds_zip)
  have len: "length ?m = numberOfNodes G" by (simp add: z n)
  have inj: "inj_on ?f {u. hasNode G u}"
  proof (rule inj_onI)
    fix u v assume "u \<in> {u. hasNode G u}" "v \<in> {u. hasNode G u}" and e: "?f u = ?f v"
    then obtain i j where i: "i < length ?ns" "?ns ! i = u" and j: "j < length ?ns" "?ns ! j = v"
      unfolding mem_Collect_eq hasNode_nth by blast
    from denseId_nth [OF i(1)] denseId_nth [OF j(1)] e have "i = j" by (simp add: i j)
    with i j show "u = v" by simp
  qed
  have img: "?f ` {u. hasNode G u} = {0..<numberOfNodes G}"
  proof (rule set_eqI)
    fix k
    show "k \<in> ?f ` {u. hasNode G u} \<longleftrightarrow> k \<in> {0..<numberOfNodes G}"
    proof
      assume "k \<in> ?f ` {u. hasNode G u}"
      then obtain u where "hasNode G u" "k = ?f u" by blast
      then obtain i where i: "i < length ?ns" "?ns ! i = u" unfolding hasNode_nth by blast
      from denseId_nth [OF i(1)] \<open>k = ?f u\<close> have "k = i" by (simp add: i)
      with i(1) show "k \<in> {0..<numberOfNodes G}" by (simp add: n)
    next
      assume "k \<in> {0..<numberOfNodes G}"
      then have k: "k < length ?ns" by (simp add: n)
      then have "hasNode G (?ns ! k)" unfolding hasNode_nth by blast
      moreover have "?f (?ns ! k) = k" by (rule denseId_nth [OF k])
      ultimately show "k \<in> ?f ` {u. hasNode G u}" by force
    qed
  qed
  have bij: "bij_betw ?f {u. hasNode G u} {0..<numberOfNodes G}"
    unfolding bij_betw_def using inj img by blast
  have asc: "\<forall>u v. hasNode G u \<and> hasNode G v \<and> u < v \<longrightarrow> ?f u < ?f v"
  proof (intro allI impI)
    fix u v assume a: "hasNode G u \<and> hasNode G v \<and> u < v"
    then obtain i j where i: "i < length ?ns" "?ns ! i = u" and j: "j < length ?ns" "?ns ! j = v"
      unfolding hasNode_nth by blast
    from a have "?ns ! i < ?ns ! j" by (simp add: i j)
    from forNodes_nth_mono [OF i(1) j(1) this] denseId_nth [OF i(1)] denseId_nth [OF j(1)]
    show "?f u < ?f v" by (simp add: i j)
  qed
  have inv: "\<forall>m. set m = set ?m \<and> distinct (map fst m) \<longrightarrow>
         invertContinuousNodeIds m G = Inr (?ns @ [upperNodeIdBound G])"
  proof (intro allI impI)
    fix m assume a: "set m = set ?m \<and> distinct (map fst m)"
    then have s: "set m = set (zip ?ns [0..<length ?ns])" by (simp add: z n)
    from a have d: "distinct (map fst m)" by simp
    show "invertContinuousNodeIds m G = Inr (?ns @ [upperNodeIdBound G])"
      by (rule invert_any_order [OF s d forNodes_distinct n])
  qed
  have l: "length (?ns @ [upperNodeIdBound G]) = numberOfNodes G + 1" by (simp add: n)
  have recov: "\<forall>u. hasNode G u \<longrightarrow> (?ns @ [upperNodeIdBound G]) ! ?f u = u"
  proof (intro allI impI)
    fix u assume "hasNode G u"
    then obtain i where i: "i < length ?ns" "?ns ! i = u" unfolding hasNode_nth by blast
    from denseId_nth [OF i(1)] have "?f u = i" by (simp add: i)
    with i show "(?ns @ [upperNodeIdBound G]) ! ?f u = u" by (simp add: nth_append)
  qed
  have sent: "(?ns @ [upperNodeIdBound G]) ! numberOfNodes G = upperNodeIdBound G"
    by (simp add: n)
  have gen: "\<forall>m. length m = numberOfNodes G \<and> distinct (map snd m)
            \<and> (\<forall>p\<in>set m. snd p < numberOfNodes G) \<longrightarrow>
         (\<exists>ivm. invertContinuousNodeIds m G = Inr ivm
                \<and> length ivm = numberOfNodes G + 1
                \<and> (\<forall>p\<in>set m. ivm ! snd p = fst p)
                \<and> ivm ! numberOfNodes G = upperNodeIdBound G)"
  proof (intro allI impI)
    fix m :: nodeIdMap
    assume a: "length m = numberOfNodes G \<and> distinct (map snd m)
            \<and> (\<forall>p\<in>set m. snd p < numberOfNodes G)"
    then have 1: "length m = numberOfNodes G" and 2: "distinct (map snd m)"
      and 3: "\<forall>p\<in>set m. snd p < numberOfNodes G" by blast+
    show "\<exists>ivm. invertContinuousNodeIds m G = Inr ivm
                \<and> length ivm = numberOfNodes G + 1
                \<and> (\<forall>p\<in>set m. ivm ! snd p = fst p)
                \<and> ivm ! numberOfNodes G = upperNodeIdBound G"
      by (rule invert_general [OF 1 2 3])
  qed
  have mis: "\<forall>m. length m \<noteq> numberOfNodes G \<longrightarrow>
         invertContinuousNodeIds m G = Inl assertion_failure"
    by (simp add: invertContinuousNodeIds_def)
  from z len bij asc inv l recov sent gen mis show ?thesis by blast
qed

theorem continuousNodeIds_bijection_witness:
  "hasNode scenarioGraph 3
   \<and> getContinuousNodeIds scenarioGraph = [(0, 0), (1, 1), (3, 2)]
   \<and> invertContinuousNodeIds [(0, 0), (1, 1), (3, 2)] scenarioGraph = Inr [0, 1, 3, 4]
   \<and> invertContinuousNodeIds [(3, 2), (0, 0), (1, 1)] scenarioGraph = Inr [0, 1, 3, 4]
   \<and> numberOfNodes scenarioGraph = 3 \<and> upperNodeIdBound scenarioGraph = 4
   \<and> (\<exists>ivm. invertContinuousNodeIds [(0, 2), (1, 0), (3, 1)] scenarioGraph = Inr ivm
          \<and> length ivm = 4 \<and> ivm ! 0 = 1 \<and> ivm ! 1 = 3 \<and> ivm ! 2 = 0 \<and> ivm ! 3 = 4)
   \<and> invertContinuousNodeIds [(0, 2), (1, 0), (3, 1)] scenarioGraph = Inr [1, 3, 0, 4]
   \<and> invertContinuousNodeIds [(0, 0), (1, 1)] scenarioGraph = Inl assertion_failure"
proof -
  have h: "hasNode scenarioGraph 3" by code_simp
  have m: "getContinuousNodeIds scenarioGraph = [(0, 0), (1, 1), (3, 2)]" by code_simp
  have ns: "forNodes scenarioGraph = [0, 1, 3]" by code_simp
  have n: "numberOfNodes scenarioGraph = 3" "upperNodeIdBound scenarioGraph = 4" by code_simp+
  have p: "set [(3, 2), (0, 0), (1, 1)] = set (getContinuousNodeIds scenarioGraph)
           \<and> distinct (map fst [(3::nat, 2::nat), (0, 0), (1, 1)])"
    unfolding m by auto
  have q: "set [(0, 0), (1, 1), (3, 2)] = set (getContinuousNodeIds scenarioGraph)
           \<and> distinct (map fst [(0::nat, 0::nat), (1, 1), (3, 2)])"
    unfolding m by auto
  have g: "length [(0::nat, 2::nat), (1, 0), (3, 1)] = numberOfNodes scenarioGraph
           \<and> distinct (map snd [(0::nat, 2::nat), (1, 0), (3, 1)])
           \<and> (\<forall>p\<in>set [(0::nat, 2::nat), (1, 0), (3, 1)]. snd p < numberOfNodes scenarioGraph)"
    unfolding n by simp
  have s: "length [(0::nat, 0::nat), (1, 1)] \<noteq> numberOfNodes scenarioGraph"
    unfolding n by simp
  have v: "invertContinuousNodeIds [(0, 2), (1, 0), (3, 1)] scenarioGraph = Inr [1, 3, 0, 4]"
    by code_simp
  note t = continuousNodeIds_bijection [of scenarioGraph]
  from t p q
  have a: "invertContinuousNodeIds [(3, 2), (0, 0), (1, 1)] scenarioGraph
          = Inr (forNodes scenarioGraph @ [upperNodeIdBound scenarioGraph])"
       "invertContinuousNodeIds [(0, 0), (1, 1), (3, 2)] scenarioGraph
          = Inr (forNodes scenarioGraph @ [upperNodeIdBound scenarioGraph])"
    by blast+
  from t g
  have "\<exists>ivm. invertContinuousNodeIds [(0, 2), (1, 0), (3, 1)] scenarioGraph = Inr ivm
          \<and> length ivm = numberOfNodes scenarioGraph + 1
          \<and> (\<forall>p\<in>set [(0::nat, 2::nat), (1, 0), (3, 1)]. ivm ! snd p = fst p)
          \<and> ivm ! numberOfNodes scenarioGraph = upperNodeIdBound scenarioGraph"
    by blast
  then have b: "\<exists>ivm. invertContinuousNodeIds [(0, 2), (1, 0), (3, 1)] scenarioGraph = Inr ivm
          \<and> length ivm = 4 \<and> ivm ! 0 = 1 \<and> ivm ! 1 = 3 \<and> ivm ! 2 = 0 \<and> ivm ! 3 = 4"
    unfolding n by auto
  from t s
  have c: "invertContinuousNodeIds [(0, 0), (1, 1)] scenarioGraph = Inl assertion_failure"
    by blast
  from a b c v h m ns n show ?thesis by simp
qed

subsection \<open>Round trip of compaction and restoration\<close>

lemma out_fold_addEdge_directed:
  assumes "isDirected H" and "a < length (outEdges H)" and "\<not> hasEdgeIds H"
  shows "outEdges (fold (\<lambda>(u, v, w, i) S. addEdge S (g u) (g' v) (c w)) es H) ! a
         = outEdges H ! a
           @ map (\<lambda>e. entry H (g' (fst (snd e))) (c (fst (snd (snd e)))) None)
               (filter (\<lambda>e. g (fst e) = a) es)"
  using assms
proof (induction es arbitrary: H)
  case Nil
  show ?case by simp
next
  case (Cons e es)
  obtain u v w i where e: "e = (u, v, w, i)" by (cases e) auto
  let ?H = "addEdge H (g u) (g' v) (c w)"
  have en: "entry ?H = entry H" by (intro ext) (simp add: entry_def)
  have "outEdges (fold (\<lambda>(u, v, w, i) S. addEdge S (g u) (g' v) (c w)) es ?H) ! a
        = outEdges ?H ! a
          @ map (\<lambda>e. entry ?H (g' (fst (snd e))) (c (fst (snd (snd e)))) None)
              (filter (\<lambda>e. g (fst e) = a) es)"
    using Cons.prems by (intro Cons.IH) simp_all
  moreover have "outEdges ?H ! a
        = outEdges H ! a @ (if a = g u then [entry H (g' v) (c w) None] else [])"
    using addEdge_out_nth [OF Cons.prems(2), of "g u" "g' v" "c w"] Cons.prems(1,3)
    by (simp add: entry_def)
  ultimately show ?case by (simp add: e en)
qed

lemma concat_single_block:
  "concat (map (\<lambda>b. if b = c then h b else []) [0..<n]) = (if c < n then h c else [])"
  by (induction n) (auto simp: less_Suc_eq)

lemma forEdges_directed:
  assumes "isDirected G"
  shows "forEdges G
         = concat (map (\<lambda>b. map (\<lambda>(v, w, i). (b, v, w, i)) (outEdges G ! b))
                     [0..<upperNodeIdBound G])"
  using assms by (simp add: forEdges_def edgesAt_def cong: map_cong)

lemma denseId_eq_iff:
  assumes "hasNode G b" and "k < length (forNodes G)"
  shows "the (map_of (getContinuousNodeIds G) b) = k \<longleftrightarrow> b = forNodes G ! k"
proof -
  from assms(1) obtain j where j: "j < length (forNodes G)" "forNodes G ! j = b"
    unfolding hasNode_nth by blast
  have "the (map_of (getContinuousNodeIds G) b) = j"
    using denseId_nth [OF j(1)] by (simp add: j)
  moreover have "j = k \<longleftrightarrow> forNodes G ! j = forNodes G ! k"
    using j(1) assms(2) forNodes_distinct [of G] by (simp add: nth_eq_iff_index_eq)
  ultimately show ?thesis by (auto simp: j)
qed

lemma consistent_out_row:
  assumes "consistent G" and "b < upperNodeIdBound G" and "e \<in> set (outEdges G ! b)"
  shows "hasNode G b" and "entryOk G e"
proof -
  have ok: "adjOk G (outEdges G)" using assms(1) by (simp add: consistent_def)
  show "hasNode G b"
  proof (rule ccontr)
    assume "\<not> hasNode G b"
    with assms(2) have "\<not> exists G ! b" by (simp add: hasNode_def)
    from adjOk_hole [OF ok assms(2) this] assms(3) show False by simp
  qed
  show "entryOk G e" by (rule adjOk_entry [OF ok assms(2,3)])
qed

lemma forEdges_dense_block:
  assumes c: "consistent G" and d: "isDirected G" and k: "k < length (forNodes G)"
  shows "filter (\<lambda>e. the (map_of (getContinuousNodeIds G) (fst e)) = k) (forEdges G)
         = map (\<lambda>(v, w, i). (forNodes G ! k, v, w, i)) (outEdges G ! (forNodes G ! k))"
proof -
  let ?f = "\<lambda>u. the (map_of (getContinuousNodeIds G) u)"
  let ?blk = "\<lambda>b. map (\<lambda>(v, w, i). (b, v, w, i)) (outEdges G ! b)"
  let ?c = "forNodes G ! k"
  have cz: "?c < upperNodeIdBound G"
    using k nth_mem [OF k] by (simp add: forNodes_set hasNode_def)
  have blk: "filter (\<lambda>e. ?f (fst e) = k) (?blk b) = (if b = ?c then ?blk b else [])"
    if b: "b < upperNodeIdBound G" for b
  proof (cases "outEdges G ! b = []")
    case True
    then show ?thesis by auto
  next
    case False
    then obtain e where "e \<in> set (outEdges G ! b)" by (cases "outEdges G ! b") auto
    from consistent_out_row(1) [OF c b this] have hb: "hasNode G b" .
    have "filter (\<lambda>e. ?f (fst e) = k) (?blk b) = filter (\<lambda>e. b = ?c) (?blk b)"
      using denseId_eq_iff [OF hb k] by (intro filter_cong) auto
    then show ?thesis by simp
  qed
  have "filter (\<lambda>e. ?f (fst e) = k) (forEdges G)
        = concat (map (\<lambda>b. filter (\<lambda>e. ?f (fst e) = k) (?blk b)) [0..<upperNodeIdBound G])"
    unfolding forEdges_directed [OF d] by (simp add: filter_concat comp_def)
  also have "\<dots> = concat (map (\<lambda>b. if b = ?c then ?blk b else []) [0..<upperNodeIdBound G])"
    using blk by (intro arg_cong [where f = concat] map_cong) simp_all
  also have "\<dots> = ?blk ?c"
    using cz by (simp add: concat_single_block)
  finally show ?thesis .
qed

lemma fold_invariant:
  assumes "\<And>x s. P s \<Longrightarrow> P (f x s)" and "P s"
  shows "P (fold f xs s)"
  using assms(2) by (induction xs arbitrary: s) (simp_all add: assms(1))

text \<open>
  The assertion of the id mapper stops a map that lacks an existing node, also when
  the node has no edge: node 3 of the path graph is isolated.
\<close>

lemma getCompactedGraph_missing_id:
  "hasNode pathGraph 3 \<and> degreeOut pathGraph 3 = 0
   \<and> getCompactedGraph pathGraph [(0, 0), (1, 1), (2, 2)] = Inl assertion_failure
   \<and> getCompactedGraph pathGraph [(0, 0), (1, 1), (3, 2)] = Inl assertion_failure"
  by code_simp

lemma compact_directed:
  assumes c: "consistent G" and d: "isDirected G"
  shows "\<exists>Gc. getCompactedGraph G (getContinuousNodeIds G) = Inr Gc
           \<and> upperNodeIdBound Gc = numberOfNodes G
           \<and> isDirected Gc \<and> isWeighted Gc = isWeighted G
           \<and> (\<forall>k<numberOfNodes G.
                 outEdges Gc ! k
                 = map (\<lambda>(v, w, i). (the (map_of (getContinuousNodeIds G) v), w, None))
                     (outEdges G ! (forNodes G ! k)))"
proof -
  let ?m = "getContinuousNodeIds G"
  let ?f = "\<lambda>u. the (map_of ?m u)"
  let ?n = "numberOfNodes G"
  let ?H0 = "newGraph ?n (isWeighted G) (isDirected G)"
  let ?Gc = "getRemappedGraph G (length ?m) ?f"
  note n = numberOfNodes_forNodes [of G]
  have keys: "fst ` set ?m = {u. hasNode G u}"
  proof -
    have "map fst ?m = forNodes G"
      unfolding getContinuousNodeIds_zip by (simp add: n)
    then have "set (map fst ?m) = set (forNodes G)" by simp
    then show ?thesis by (simp add: forNodes_set)
  qed
  have dom: "map_of ?m u \<noteq> None" if "hasNode G u" for u
    using that keys by (simp add: map_of_eq_None_iff)
  have chk: "list_all (\<lambda>(u, v, w, i). map_of ?m u \<noteq> None \<and> map_of ?m v \<noteq> None) (forEdges G)"
    unfolding list_all_iff
  proof
    fix e assume e: "e \<in> set (forEdges G)"
    obtain a b w i where q: "e = (a, b, w, i)" by (cases e) auto
    from e have m: "a < upperNodeIdBound G" "(b, w, i) \<in> set (outEdges G ! a)"
      unfolding q forEdges_mem by simp_all
    from consistent_out_row [OF c m] have "hasNode G a" "hasNode G b"
      by (simp_all add: entryOk_def)
    then have "map_of ?m a \<noteq> None \<and> map_of ?m b \<noteq> None"
      using dom by blast
    then show "case e of (u, v, w, i) \<Rightarrow> map_of ?m u \<noteq> None \<and> map_of ?m v \<noteq> None"
      unfolding q by simp
  qed
  have len: "length ?m = ?n" by (simp add: getContinuousNodeIds_zip n)
  have chkn: "list_all (\<lambda>u. map_of ?m u \<noteq> None) (forNodes G)"
    unfolding list_all_iff using dom by (simp add: forNodes_set)
  have res: "getCompactedGraph G ?m = Inr ?Gc"
    using chk chkn by (simp add: getCompactedGraph_def)
  let ?step = "\<lambda>(u, v, w, i) H. addEdge H (?f u) (?f v) ((\<lambda>w. w) w)"
  have Gc: "?Gc = fold ?step (forEdges G) ?H0"
    by (simp add: getRemappedGraph_def len)
  have inv: "exists ?Gc = replicate ?n True \<and> isDirected ?Gc \<and> isWeighted ?Gc = isWeighted G"
    unfolding Gc
  proof (rule fold_invariant)
    show "exists ?H0 = replicate ?n True \<and> isDirected ?H0 \<and> isWeighted ?H0 = isWeighted G"
      using d by (simp add: newGraph_def)
  next
    fix x and s :: Graph
    assume "exists s = replicate ?n True \<and> isDirected s \<and> isWeighted s = isWeighted G"
    then show "exists (?step x s) = replicate ?n True \<and> isDirected (?step x s)
               \<and> isWeighted (?step x s) = isWeighted G"
      by (cases x) simp
  qed
  have z: "upperNodeIdBound ?Gc = ?n" using inv by (simp add: upperNodeIdBound_def)
  have rows: "outEdges ?Gc ! k
        = map (\<lambda>(v, w, i). (?f v, w, None)) (outEdges G ! (forNodes G ! k))" if k: "k < ?n" for k
  proof -
    let ?c = "forNodes G ! k"
    have kl: "k < length (forNodes G)" using k by (simp add: n)
    have cz: "?c < upperNodeIdBound G"
      using nth_mem [OF kl] by (simp add: forNodes_set hasNode_def)
    have h0: "isDirected ?H0" "k < length (outEdges ?H0)" "\<not> hasEdgeIds ?H0"
      using d k by (simp_all add: newGraph_def)
    have "outEdges ?Gc ! k
          = outEdges ?H0 ! k
            @ map (\<lambda>e. entry ?H0 (?f (fst (snd e))) ((\<lambda>w. w) (fst (snd (snd e)))) None)
                (filter (\<lambda>e. ?f (fst e) = k) (forEdges G))"
      unfolding Gc by (rule out_fold_addEdge_directed [OF h0])
    also have "outEdges ?H0 ! k = []" using k by (simp add: newGraph_def)
    also have "filter (\<lambda>e. ?f (fst e) = k) (forEdges G)
               = map (\<lambda>(v, w, i). (?c, v, w, i)) (outEdges G ! ?c)"
      by (rule forEdges_dense_block [OF c d kl])
    finally have "outEdges ?Gc ! k
          = map (\<lambda>(v, w, i). entry ?H0 (?f v) w None) (outEdges G ! ?c)"
      by (simp add: comp_def split_def)
    also have "\<dots> = map (\<lambda>(v, w, i). (?f v, w, None)) (outEdges G ! ?c)"
    proof (rule map_cong [OF refl])
      fix e assume "e \<in> set (outEdges G ! ?c)"
      from consistent_out_row(2) [OF c cz this]
      show "(case e of (v, w, i) \<Rightarrow> entry ?H0 (?f v) w None)
            = (case e of (v, w, i) \<Rightarrow> (?f v, w, None))"
        by (cases e) (auto simp: entryOk_def entry_def newGraph_def)
    qed
    finally show ?thesis .
  qed
  from res inv z rows show ?thesis by blast
qed

lemma out_fold_addEdge_from:
  assumes "isDirected H" and "a < length (outEdges H)" and "\<not> hasEdgeIds H"
  shows "outEdges (fold (\<lambda>v S. addEdge S u (g v) w) vs H) ! a
         = outEdges H ! a @ (if a = u then map (\<lambda>v. entry H (g v) w None) vs else [])"
  using assms
proof (induction vs arbitrary: H)
  case Nil
  show ?case by simp
next
  case (Cons v vs)
  let ?H = "addEdge H u (g v) w"
  have en: "entry ?H = entry H" by (intro ext) (simp add: entry_def)
  have "outEdges (fold (\<lambda>v S. addEdge S u (g v) w) vs ?H) ! a
        = outEdges ?H ! a @ (if a = u then map (\<lambda>v. entry ?H (g v) w None) vs else [])"
    using Cons.prems by (intro Cons.IH) simp_all
  moreover have "outEdges ?H ! a = outEdges H ! a @ (if a = u then [entry H (g v) w None] else [])"
    using addEdge_out_nth [OF Cons.prems(2), of u "g v" w] Cons.prems(1,3)
    by (simp add: entry_def)
  ultimately show ?case by (simp add: en)
qed

lemma fold_addEdge_from_fields:
  "exists (fold (\<lambda>v S. addEdge S u (g v) w) vs H) = exists H
   \<and> isDirected (fold (\<lambda>v S. addEdge S u (g v) w) vs H) = isDirected H
   \<and> hasEdgeIds (fold (\<lambda>v S. addEdge S u (g v) w) vs H) = hasEdgeIds H
   \<and> isWeighted (fold (\<lambda>v S. addEdge S u (g v) w) vs H) = isWeighted H
   \<and> length (outEdges (fold (\<lambda>v S. addEdge S u (g v) w) vs H)) = length (outEdges H)"
  by (induction vs arbitrary: H) simp_all

lemma forNodes_split:
  assumes "j < upperNodeIdBound G"
  shows "forNodes G = filter (hasNode G) [0..<j]
                      @ (if hasNode G j then [j] else [])
                      @ filter (hasNode G) [Suc j..<upperNodeIdBound G]"
proof -
  have "[0..<upperNodeIdBound G] = [0..<j] @ j # [Suc j..<upperNodeIdBound G]"
  proof -
    have "[0..<upperNodeIdBound G] = [0..<j] @ [j..<upperNodeIdBound G]"
      using assms upt_add_eq_append [of 0 j "upperNodeIdBound G - j"] by simp
    with upt_conv_Cons [OF assms] show ?thesis by simp
  qed
  then show ?thesis by (simp add: forNodes_def)
qed

lemma count_below:
  assumes "j < upperNodeIdBound G"
  shows "length (filter (hasNode G) [0..<j]) \<le> length (forNodes G)"
    and "hasNode G j \<Longrightarrow> length (filter (hasNode G) [0..<j]) < length (forNodes G)"
    and "hasNode G j \<Longrightarrow> forNodes G ! length (filter (hasNode G) [0..<j]) = j"
    and "\<not> hasNode G j \<Longrightarrow>
           (forNodes G @ [upperNodeIdBound G]) ! length (filter (hasNode G) [0..<j]) \<noteq> j"
proof -
  let ?c = "length (filter (hasNode G) [0..<j])"
  note sp = forNodes_split [OF assms]
  show le: "?c \<le> length (forNodes G)" by (subst sp) simp
  show "hasNode G j \<Longrightarrow> ?c < length (forNodes G)" by (subst sp) simp
  show "hasNode G j \<Longrightarrow> forNodes G ! ?c = j"
    by (subst sp) (simp add: nth_append)
  show "(forNodes G @ [upperNodeIdBound G]) ! ?c \<noteq> j" if nh: "\<not> hasNode G j"
  proof (cases "?c < length (forNodes G)")
    case True
    then have "forNodes G ! ?c \<in> set (forNodes G)" by (rule nth_mem)
    then have "hasNode G (forNodes G ! ?c)" by (simp add: forNodes_set)
    with nh have "forNodes G ! ?c \<noteq> j" by auto
    with True show ?thesis by (simp add: nth_append)
  next
    case False
    with le have "?c = length (forNodes G)" by simp
    with assms show ?thesis by (simp add: nth_append)
  qed
qed

lemma denseId_existing:
  assumes "hasNode G v"
  shows "the (map_of (getContinuousNodeIds G) v) < length (forNodes G)"
    and "(forNodes G @ [b]) ! the (map_of (getContinuousNodeIds G) v) = v"
proof -
  from assms obtain k where k: "k < length (forNodes G)" "forNodes G ! k = v"
    unfolding hasNode_nth by blast
  have f: "the (map_of (getContinuousNodeIds G) v) = k"
    using denseId_nth [OF k(1)] by (simp add: k)
  show "the (map_of (getContinuousNodeIds G) v) < length (forNodes G)" using k f by simp
  show "(forNodes G @ [b]) ! the (map_of (getContinuousNodeIds G) v) = v"
    using k f by (simp add: nth_append)
qed

lemma restoredUpTo_hole:
  assumes c: "consistent G" and j: "j < upperNodeIdBound G" and nh: "\<not> hasNode G j"
      and inv: "restoredUpTo G j Go"
  shows "restoredUpTo G (Suc j) (removeNode Go j)"
proof -
  let ?z = "upperNodeIdBound G"
  have ej: "\<not> exists G ! j" using nh j by (simp add: hasNode_def)
  have row: "outEdges G ! j = []"
    using adjOk_hole [of G "outEdges G" j] c j ej by (simp add: consistent_def)
  have ex: "(map (\<lambda>u. u < j \<longrightarrow> exists G ! u) [0..<?z])[j := False]
            = map (\<lambda>u. u < Suc j \<longrightarrow> exists G ! u) [0..<?z]"
  proof (rule nth_equalityI)
    show "length ((map (\<lambda>u. u < j \<longrightarrow> exists G ! u) [0..<?z])[j := False])
          = length (map (\<lambda>u. u < Suc j \<longrightarrow> exists G ! u) [0..<?z])" by simp
  next
    fix i
    assume "i < length ((map (\<lambda>u. u < j \<longrightarrow> exists G ! u) [0..<?z])[j := False])"
    then have "i < ?z" by simp
    then show "(map (\<lambda>u. u < j \<longrightarrow> exists G ! u) [0..<?z])[j := False] ! i
               = map (\<lambda>u. u < Suc j \<longrightarrow> exists G ! u) [0..<?z] ! i"
      using ej by (auto simp: nth_list_update less_Suc_eq)
  qed
  have rows: "outEdges Go ! a
        = (if a < Suc j then map (\<lambda>(v, w, i). (v, defaultEdgeWeight, None)) (outEdges G ! a) else [])"
    if "a < ?z" for a
  proof (cases "a = j")
    case True
    with inv that row show ?thesis by (simp add: restoredUpTo_def)
  next
    case False
    with inv that show ?thesis by (auto simp: restoredUpTo_def less_Suc_eq)
  qed
  from inv have rest: "isDirected Go" "\<not> hasEdgeIds Go" "isWeighted Go = isWeighted G"
    "length (outEdges Go) = ?z" "exists Go = map (\<lambda>u. u < j \<longrightarrow> exists G ! u) [0..<?z]"
    by (simp_all add: restoredUpTo_def)
  show ?thesis
    unfolding restoredUpTo_def using rest rows ex by (simp add: removeNode_def)
qed

lemma restoredUpTo_node:
  assumes c: "consistent G" and j: "j < upperNodeIdBound G" and h: "hasNode G j"
      and inv: "restoredUpTo G j Go"
  shows "restoredUpTo G (Suc j)
           (fold (\<lambda>v H. addEdge H j ((forNodes G @ [upperNodeIdBound G]) ! v) defaultEdgeWeight)
              (map (\<lambda>e. the (map_of (getContinuousNodeIds G) (fst e))) (outEdges G ! j)) Go)"
proof -
  let ?z = "upperNodeIdBound G"
  let ?ivm = "forNodes G @ [?z]"
  let ?f = "\<lambda>v. the (map_of (getContinuousNodeIds G) v)"
  let ?nb = "map (\<lambda>e. ?f (fst e)) (outEdges G ! j)"
  let ?Go' = "fold (\<lambda>v H. addEdge H j (?ivm ! v) defaultEdgeWeight) ?nb Go"
  from inv have rest: "isDirected Go" "\<not> hasEdgeIds Go" "isWeighted Go = isWeighted G"
    "length (outEdges Go) = ?z" "exists Go = map (\<lambda>u. u < j \<longrightarrow> exists G ! u) [0..<?z]"
    and old: "\<And>a. a < ?z \<Longrightarrow> outEdges Go ! a
        = (if a < j then map (\<lambda>(v, w, i). (v, defaultEdgeWeight, None)) (outEdges G ! a) else [])"
    by (simp_all add: restoredUpTo_def)
  note fl = fold_addEdge_from_fields [of j "\<lambda>v. ?ivm ! v" defaultEdgeWeight ?nb Go]
  have ej: "exists G ! j" using h by (simp add: hasNode_def)
  have ex: "map (\<lambda>u. u < j \<longrightarrow> exists G ! u) [0..<?z]
            = map (\<lambda>u. u < Suc j \<longrightarrow> exists G ! u) [0..<?z]"
    using ej by (auto simp: less_Suc_eq)
  have new: "map (\<lambda>v. entry Go (?ivm ! v) defaultEdgeWeight None) ?nb
             = map (\<lambda>(v, w, i). (v, defaultEdgeWeight, None)) (outEdges G ! j)"
  proof -
    have "map (\<lambda>v. entry Go (?ivm ! v) defaultEdgeWeight None) ?nb
          = map (\<lambda>e. entry Go (?ivm ! ?f (fst e)) defaultEdgeWeight None) (outEdges G ! j)"
      by (simp add: comp_def)
    also have "\<dots> = map (\<lambda>(v, w, i). (v, defaultEdgeWeight, None)) (outEdges G ! j)"
    proof (rule map_cong [OF refl])
      fix e assume e: "e \<in> set (outEdges G ! j)"
      from consistent_out_row(2) [OF c j e] have "hasNode G (fst e)"
        by (cases e) (simp add: entryOk_def)
      from denseId_existing(2) [OF this, of ?z] rest(2)
      show "entry Go (?ivm ! ?f (fst e)) defaultEdgeWeight None
            = (case e of (v, w, i) \<Rightarrow> (v, defaultEdgeWeight, None))"
        by (cases e) (simp add: entry_def)
    qed
    finally show ?thesis .
  qed
  have rows: "outEdges ?Go' ! a
        = (if a < Suc j then map (\<lambda>(v, w, i). (v, defaultEdgeWeight, None)) (outEdges G ! a) else [])"
    if a: "a < ?z" for a
  proof -
    have al: "a < length (outEdges Go)" using a rest(4) by simp
    have "outEdges ?Go' ! a
          = outEdges Go ! a
            @ (if a = j then map (\<lambda>v. entry Go (?ivm ! v) defaultEdgeWeight None) ?nb else [])"
      by (rule out_fold_addEdge_from [OF rest(1) al rest(2)])
    then show ?thesis
      unfolding new old [OF a] by (auto simp: less_Suc_eq)
  qed
  show ?thesis
    unfolding restoredUpTo_def using fl rest rows ex by simp
qed

lemma restoreNodeStep_directed:
  assumes c: "consistent G" and j: "j < upperNodeIdBound G"
      and Gc1: "upperNodeIdBound Gc = numberOfNodes G"
      and Gc2: "\<forall>k<numberOfNodes G.
                 outEdges Gc ! k
                 = map (\<lambda>(v, w, i). (the (map_of (getContinuousNodeIds G) v), w, None))
                     (outEdges G ! (forNodes G ! k))"
      and inv: "restoredUpTo G j Go"
  shows "\<exists>Go'. restoreNodeStep (forNodes G @ [upperNodeIdBound G]) Gc j
                  (Inr (Go, length (filter (hasNode G) [0..<j])))
                = Inr (Go', length (filter (hasNode G) [0..<Suc j]))
              \<and> restoredUpTo G (Suc j) Go'"
proof -
  let ?z = "upperNodeIdBound G"
  let ?ivm = "forNodes G @ [?z]"
  let ?f = "\<lambda>v. the (map_of (getContinuousNodeIds G) v)"
  let ?c = "length (filter (hasNode G) [0..<j])"
  note n = numberOfNodes_forNodes [of G]
  from inv have exGo: "exists Go = map (\<lambda>u. u < j \<longrightarrow> exists G ! u) [0..<?z]"
    by (simp add: restoredUpTo_def)
  have hn: "hasNode Go j"
    using j by (simp add: hasNode_def upperNodeIdBound_def [of Go] exGo)
  have li: "length ?ivm = length (forNodes G) + 1" by simp
  show ?thesis
  proof (cases "hasNode G j")
    case True
    note cb = count_below(2,3) [OF j True]
    have at: "?ivm ! ?c = j" using cb by (simp add: nth_append)
    have cG: "?c < upperNodeIdBound Gc" using cb(1) by (simp add: Gc1 n)
    have row: "outEdges Gc ! ?c
               = map (\<lambda>(v, w, i). (?f v, w, None)) (outEdges G ! j)"
      using Gc2 cb by (simp add: n)
    have nb: "forNeighborsOf Gc ?c = map (\<lambda>e. ?f (fst e)) (outEdges G ! j)"
      unfolding forNeighborsOf_def row by (simp add: comp_def split_def)
    have la: "list_all (\<lambda>v. v < length ?ivm) (forNeighborsOf Gc ?c)"
      unfolding nb list_all_iff
    proof
      fix v assume "v \<in> set (map (\<lambda>e. ?f (fst e)) (outEdges G ! j))"
      then obtain e where e: "e \<in> set (outEdges G ! j)" "v = ?f (fst e)" by auto
      from consistent_out_row(2) [OF c j e(1)] have "hasNode G (fst e)"
        by (cases e) (simp add: entryOk_def)
      from denseId_existing(1) [OF this] show "v < length ?ivm" by (simp add: e(2))
    qed
    let ?Go' = "fold (\<lambda>v H. addEdge H j (?ivm ! v) defaultEdgeWeight)
                  (map (\<lambda>e. ?f (fst e)) (outEdges G ! j)) Go"
    have cl: "?c < length ?ivm" using cb(1) by simp
    have "restoreNodeStep ?ivm Gc j (Inr (Go, ?c)) = Inr (?Go', ?c + 1)"
      unfolding restoreNodeStep_def using hn cl at cG la nb by simp
    moreover have "length (filter (hasNode G) [0..<Suc j]) = ?c + 1" using True by simp
    moreover have "restoredUpTo G (Suc j) ?Go'" by (rule restoredUpTo_node [OF c j True inv])
    ultimately show ?thesis by (simp only:) blast
  next
    case False
    have cl: "?c < length ?ivm" using count_below(1) [OF j] by simp
    have ne: "?ivm ! ?c \<noteq> j" by (rule count_below(4) [OF j False])
    have "restoreNodeStep ?ivm Gc j (Inr (Go, ?c)) = Inr (removeNode Go j, ?c)"
      unfolding restoreNodeStep_def using hn cl ne by simp
    moreover have "length (filter (hasNode G) [0..<Suc j]) = ?c" using False by simp
    moreover have "restoredUpTo G (Suc j) (removeNode Go j)"
      by (rule restoredUpTo_hole [OF c j False inv])
    ultimately show ?thesis by (simp only:) blast
  qed
qed

lemma restore_loop_directed:
  assumes c: "consistent G" and jz: "j \<le> upperNodeIdBound G"
      and Gc1: "upperNodeIdBound Gc = numberOfNodes G"
      and Gc2: "\<forall>k<numberOfNodes G.
                 outEdges Gc ! k
                 = map (\<lambda>(v, w, i). (the (map_of (getContinuousNodeIds G) v), w, None))
                     (outEdges G ! (forNodes G ! k))"
      and G0: "restoredUpTo G 0 G0"
  shows "\<exists>Go. fold (restoreNodeStep (forNodes G @ [upperNodeIdBound G]) Gc) [0..<j] (Inr (G0, 0))
                = Inr (Go, length (filter (hasNode G) [0..<j]))
              \<and> restoredUpTo G j Go"
  using jz
proof (induction j)
  case 0
  with G0 show ?case by simp
next
  case (Suc j)
  then have j: "j < upperNodeIdBound G" by simp
  from Suc obtain Go where
    r: "fold (restoreNodeStep (forNodes G @ [upperNodeIdBound G]) Gc) [0..<j] (Inr (G0, 0))
        = Inr (Go, length (filter (hasNode G) [0..<j]))"
    and inv: "restoredUpTo G j Go" by auto
  from restoreNodeStep_directed [OF c j Gc1 Gc2 inv] obtain Go' where
    s: "restoreNodeStep (forNodes G @ [upperNodeIdBound G]) Gc j
          (Inr (Go, length (filter (hasNode G) [0..<j])))
        = Inr (Go', length (filter (hasNode G) [0..<Suc j]))"
    and inv': "restoredUpTo G (Suc j) Go'" by blast
  have "fold (restoreNodeStep (forNodes G @ [upperNodeIdBound G]) Gc) [0..<Suc j] (Inr (G0, 0))
        = Inr (Go', length (filter (hasNode G) [0..<Suc j]))"
    using r s by simp
  with inv' show ?case by blast
qed

lemma restoredUpTo_0:
  assumes "isDirected Gc" and "isWeighted Gc = isWeighted G"
  shows "restoredUpTo G 0 (newGraph (upperNodeIdBound G) (isWeighted Gc) (isDirected Gc))"
  using assms by (simp add: restoredUpTo_def newGraph_def map_replicate_const)

lemma exists_map_nth:
  "map (\<lambda>u. u < upperNodeIdBound G \<longrightarrow> exists G ! u) [0..<upperNodeIdBound G] = exists G"
  by (rule nth_equalityI) (simp_all add: upperNodeIdBound_def)

text \<open>
  For a directed graph that satisfies the invariant the round trip succeeds and
  restores the node existence and, per node and in order, the out-neighbours; the
  restored edges carry the default weight and no edge id.
\<close>

lemma roundTrip_directed:
  assumes c: "consistent G" and d: "isDirected G"
  shows "\<exists>R. roundTrip G = Inr R
           \<and> exists R = exists G
           \<and> isDirected R \<and> isWeighted R = isWeighted G
           \<and> (\<forall>a<upperNodeIdBound G.
                 outEdges R ! a = map (\<lambda>(v, w, i). (v, defaultEdgeWeight, None)) (outEdges G ! a))
           \<and> forEdges R = map (\<lambda>(u, v, w, i). (u, v, defaultEdgeWeight, None)) (forEdges G)"
proof -
  let ?z = "upperNodeIdBound G"
  let ?ns = "forNodes G"
  let ?m = "getContinuousNodeIds G"
  let ?ivm = "?ns @ [?z]"
  note n = numberOfNodes_forNodes [of G]
  from compact_directed [OF c d] obtain Gc where
    Gc: "getCompactedGraph G ?m = Inr Gc" and Gc1: "upperNodeIdBound Gc = numberOfNodes G"
    and GcF: "isDirected Gc" "isWeighted Gc = isWeighted G"
    and Gc2: "\<forall>k<numberOfNodes G.
                 outEdges Gc ! k
                 = map (\<lambda>(v, w, i). (the (map_of ?m v), w, None)) (outEdges G ! (?ns ! k))"
    by blast
  have mz: "?m = zip ?ns [0..<length ?ns]" by (simp add: getContinuousNodeIds_zip n)
  have "distinct (map fst ?m)" unfolding mz by (simp add: forNodes_distinct)
  with mz have iv: "invertContinuousNodeIds ?m G = Inr ?ivm"
    by (intro invert_any_order [OF _ _ forNodes_distinct n]) simp_all
  from restore_loop_directed [OF c le_refl Gc1 Gc2 restoredUpTo_0 [OF GcF]]
  obtain R where
    loop: "fold (restoreNodeStep ?ivm Gc) [0..<?z]
             (Inr (newGraph ?z (isWeighted Gc) (isDirected Gc), 0))
           = Inr (R, length (filter (hasNode G) [0..<?z]))"
    and inv: "restoredUpTo G ?z R" by blast
  have rg: "restoreGraph ?ivm Gc = Inr R"
    unfolding restoreGraph_def using loop by simp
  have rt: "roundTrip G = Inr R"
    unfolding roundTrip_def Let_def Gc iv using rg by simp
  from inv have ex: "exists R = exists G"
    and fl: "isDirected R" "isWeighted R = isWeighted G"
    and rows: "\<forall>a<?z. outEdges R ! a
                 = map (\<lambda>(v, w, i). (v, defaultEdgeWeight, None)) (outEdges G ! a)"
    by (simp_all add: restoredUpTo_def exists_map_nth)
  have zR: "upperNodeIdBound R = ?z" using ex by (simp add: upperNodeIdBound_def)
  have "forEdges R
        = concat (map (\<lambda>b. map (\<lambda>(v, w, i). (b, v, w, i)) (outEdges R ! b)) [0..<?z])"
    using forEdges_directed [OF fl(1)] zR by simp
  also have "\<dots> = concat (map (\<lambda>b. map (\<lambda>(u, v, w, i). (u, v, defaultEdgeWeight, None))
                                 (map (\<lambda>(v, w, i). (b, v, w, i)) (outEdges G ! b))) [0..<?z])"
    using rows by (intro arg_cong [where f = concat] map_cong) (simp_all add: comp_def split_def)
  also have "\<dots> = map (\<lambda>(u, v, w, i). (u, v, defaultEdgeWeight, None)) (forEdges G)"
    unfolding forEdges_directed [OF d] by (simp add: map_concat comp_def)
  finally have fe: "forEdges R
        = map (\<lambda>(u, v, w, i). (u, v, defaultEdgeWeight, None)) (forEdges G)" .
  from rt ex fl rows fe show ?thesis by blast
qed

text \<open>
  Claim C1. The round trip does not restore an undirected graph. On the undirected
  graph of two nodes and the edge between them (already dense: the compacted graph is
  the graph itself and the inverted map is \<open>[0, 1, 2]\<close>), \<open>restoreGraph\<close> visits the
  edge from both endpoints and adds it each time: the restored graph has two edges
  between 0 and 1, the original has one.
\<close>

theorem restoreGraph_undirected_doubles:
  "\<not> isDirected pairGraph \<and> consistent pairGraph
   \<and> forEdges pairGraph = [(1, 0, 1, None)] \<and> numberOfEdges pairGraph = 1
   \<and> getContinuousNodeIds pairGraph = [(0, 0), (1, 1)]
   \<and> getCompactedGraph pairGraph [(0, 0), (1, 1)] = Inr pairGraph
   \<and> invertContinuousNodeIds [(0, 0), (1, 1)] pairGraph = Inr [0, 1, 2]
   \<and> restoreGraph [0, 1, 2] pairGraph = roundTrip pairGraph
   \<and> roundTrip pairGraph
       = Inr \<lparr> exists = [True, True], isWeighted = False, isDirected = False,
               hasEdgeIds = False, numberOfEdges = 2, numberOfSelfLoops = 0,
               upperEdgeIdBound = 0,
               outEdges = [[(1, 1, None), (1, 1, None)], [(0, 1, None), (0, 1, None)]],
               inEdges = [] \<rparr>
   \<and> map_sum id forEdges (roundTrip pairGraph) = Inr [(1, 0, 1, None), (1, 0, 1, None)]"
  by code_simp

subsection \<open>The invariant under construction\<close>

text \<open>
  A new graph satisfies the invariant, and adding an edge between existing nodes
  keeps it: the graphs that the hypotheses above speak of are those built through
  the interface of the storage engine. The same holds of the mirrored adjacency, and
  of the consistency check as long as no edge is added twice.
\<close>

lemma newGraph_consistent: "consistent (newGraph n w d)"
  by (simp add: consistent_def adjOk_iff newGraph_def upperNodeIdBound_def)

lemma adjOk_push:
  assumes ok: "adjOk G xss" and u: "hasNode G u" and e: "entryOk G e"
  shows "adjOk G (push xss u e)"
proof -
  have uz: "u < upperNodeIdBound G" and ue: "exists G ! u" using u by (simp_all add: hasNode_def)
  have len: "length xss = upperNodeIdBound G" using ok by (rule adjOk_length)
  have "(exists G ! a \<or> push xss u e ! a = []) \<and> (\<forall>x\<in>set (push xss u e ! a). entryOk G x)"
    if a: "a < upperNodeIdBound G" for a
  proof (cases "a = u")
    case True
    have "push xss u e ! a = xss ! u @ [e]" using True uz len by (simp add: push_nth)
    with ue True e adjOk_entry [OF ok uz] show ?thesis by auto
  next
    case False
    have "push xss u e ! a = xss ! a" using False a len by (simp add: push_nth)
    with adjOk_hole [OF ok a] adjOk_entry [OF ok a] show ?thesis by auto
  qed
  with len show ?thesis unfolding adjOk_iff by simp
qed

lemma addEdge_consistent:
  assumes c: "consistent G" and u: "hasNode G u" and v: "hasNode G v"
  shows "consistent (addEdge G u v w)"
proof -
  let ?H = "addEdge G u v w"
  have cg: "adjOk ?H = adjOk G" by (intro ext adjOk_cong) simp_all
  have eu: "entryOk G (entry G u w (Some (upperEdgeIdBound G)))"
    and ev: "entryOk G (entry G v w (Some (upperEdgeIdBound G)))"
    using u v by (simp_all add: entryOk_def entry_def)
  have ao: "adjOk G (outEdges G)" using c by (simp add: consistent_def)
  have o1: "adjOk G (push (outEdges G) u (entry G v w (Some (upperEdgeIdBound G))))"
    by (rule adjOk_push [OF ao u ev])
  have o2: "adjOk G (push (push (outEdges G) u (entry G v w (Some (upperEdgeIdBound G)))) v
                       (entry G u w (Some (upperEdgeIdBound G))))"
    by (rule adjOk_push [OF o1 v eu])
  have out: "adjOk G (outEdges ?H)"
    using o1 o2 by (simp add: addEdge_def Let_def)
  show ?thesis
  proof (cases "isDirected G")
    case True
    then have "adjOk G (inEdges G)" using c by (simp add: consistent_def)
    from adjOk_push [OF this v eu] have "adjOk G (inEdges ?H)"
      using True by (simp add: addEdge_def Let_def)
    with out True show ?thesis by (simp add: consistent_def cg)
  next
    case False
    then have "inEdges ?H = []" using c by (simp add: consistent_def addEdge_def Let_def)
    with out False show ?thesis by (simp add: consistent_def cg)
  qed
qed

lemma newGraph_checkConsistency: "checkConsistency (newGraph n w d)"
  by (simp add: checkConsistency_def newGraph_def upperNodeIdBound_def list_all_iff)

lemma newGraph_mirrored: "mirrored (newGraph n w d)"
  by (simp add: mirrored_iff neighborRange_def inNeighborRange_def forInEdgesOf_def
        newGraph_def upperNodeIdBound_def)

lemma addEdge_in_neighbours:
  assumes "a < length (inEdges H)"
  shows "map fst (inEdges (addEdge H u v w) ! a)
         = map fst (inEdges H ! a) @ (if isDirected H \<and> a = v then [u] else [])"
  unfolding addEdge_in_nth [OF assms] by (simp add: entry_def)

lemma addEdge_mirrored:
  assumes c: "consistent G" and m: "mirrored G"
  shows "mirrored (addEdge G u v w)"
proof -
  let ?H = "addEdge G u v w"
  let ?z = "upperNodeIdBound G"
  note len = consistent_lengths [OF c]
  have "count_list (neighborRange ?H a) b = count_list (inNeighborRange ?H b) a"
    if a: "a < ?z" and b: "b < ?z" for a b
  proof -
    from m a b have e: "count_list (neighborRange G a) b = count_list (inNeighborRange G b) a"
      unfolding mirrored_iff by blast
    have al: "a < length (outEdges G)" and bl: "b < length (outEdges G)"
      using a b len(1) by simp_all
    show ?thesis
    proof (cases "isDirected G")
      case True
      then have bi: "b < length (inEdges G)" using b len(2) by simp
      from e True show ?thesis
        unfolding neighborRange_def inNeighborRange_def forInEdgesOf_def
        by (simp add: addEdge_neighbours [OF al] addEdge_in_neighbours [OF bi])
    next
      case False
      from e False show ?thesis
        unfolding neighborRange_def inNeighborRange_def forInEdgesOf_def
        by (simp add: addEdge_neighbours [OF al] addEdge_neighbours [OF bl])
    qed
  qed
  then show ?thesis unfolding mirrored_iff by simp
qed

lemma sum_list_push:
  assumes "u < length xss"
  shows "sum_list (map length (push xss u x)) = sum_list (map length xss) + 1"
proof -
  have "xss = take u xss @ xss ! u # drop (Suc u) xss"
    using assms by (simp add: id_take_nth_drop)
  then obtain as bs where s: "xss = as @ xss ! u # bs" and l: "length as = u"
    using assms by (metis length_take min.absorb2 less_imp_le)
  have "push xss u x = as @ (xss ! u @ [x]) # bs"
    unfolding push_def using l by (subst s) (simp add: list_update_append)
  then have "sum_list (map length (push xss u x))
             = sum_list (map length (as @ xss ! u # bs)) + 1" by simp
  with s show ?thesis by simp
qed

lemma addEdge_checkConsistency:
  assumes k: "checkConsistency G" and u: "u < upperNodeIdBound G" and v: "v < upperNodeIdBound G"
      and ne: "\<not> hasEdge G u v" and ne': "isDirected G \<or> \<not> hasEdge G v u"
  shows "checkConsistency (addEdge G u v w)"
proof -
  let ?H = "addEdge G u v w"
  let ?z = "upperNodeIdBound G"
  have lo: "length (outEdges G) = ?z"
    and li: "length (inEdges G) = (if isDirected G then ?z else 0)"
    and dout: "list_all (\<lambda>xs. distinct (map fst xs)) (outEdges G)"
    using k by (simp_all add: checkConsistency_def)
  have nu: "v \<notin> set (map fst (outEdges G ! u))"
    using ne u v by (simp add: hasEdge_def)
  have nv: "isDirected G \<or> u \<notin> set (map fst (outEdges G ! v))"
    using ne' u v by (simp add: hasEdge_def)
  have d': "list_all (\<lambda>xs. distinct (map fst xs)) (outEdges ?H)"
    unfolding list_all_length
  proof (intro allI impI)
    fix a assume "a < length (outEdges ?H)"
    then have a: "a < length (outEdges G)" by simp
    from dout a have da: "distinct (map fst (outEdges G ! a))"
      unfolding list_all_length by blast
    show "distinct (map fst (outEdges ?H ! a))"
      unfolding addEdge_neighbours [OF a] using da nu nv by auto
  qed
  have so: "sum_list (map length (outEdges ?H))
            = sum_list (map length (outEdges G)) + (if isDirected G \<or> u = v then 1 else 2)"
    using u v lo by (simp add: addEdge_def Let_def sum_list_push)
  have si: "sum_list (map length (inEdges ?H))
            = sum_list (map length (inEdges G)) + (if isDirected G then 1 else 0)"
    using v li by (simp add: addEdge_def Let_def sum_list_push)
  have cnt: "numberOfEdges ?H = numberOfEdges G + 1"
    "numberOfSelfLoops ?H = numberOfSelfLoops G + (if u = v then 1 else 0)"
    by (simp_all add: addEdge_def Let_def)
  have z: "upperNodeIdBound ?H = ?z" by simp
  show ?thesis
  proof (cases "isDirected G")
    case True
    with k have "numberOfEdges G = sum_list (map length (outEdges G))"
      "numberOfEdges G = sum_list (map length (inEdges G))"
      by (simp_all add: checkConsistency_def)
    with True lo li d' show ?thesis
      unfolding checkConsistency_def so si cnt z by simp
  next
    case False
    with k have "2 * numberOfEdges G = sum_list (map length (outEdges G)) + numberOfSelfLoops G"
      by (simp add: checkConsistency_def)
    with False lo li d' show ?thesis
      unfolding checkConsistency_def so si cnt z by simp
  qed
qed

end
